theory Spec2Isabelle
  imports Main "HOL-Library.Multiset"
begin

section \<open>Constants and the shape catalogue\<close>

text \<open>
  The engine of \<^verbatim>\<open>src/game/tetris.py\<close>. Python integers are unbounded, so they are
  \<open>int\<close>; an exception is a value \<open>Inl e\<close> of a sum type; a list that the code mutates in
  place is passed in and returned.
\<close>

datatype error = KeyError | IndexError | ZeroDivisionError

definition GRID_WIDTH :: int where
  "GRID_WIDTH = 10"

definition GRID_HEIGHT :: int where
  "GRID_HEIGHT = 20"

text \<open>
  The dict literal \<^verbatim>\<open>SHAPES\<close>, in insertion order: kind, then its rotation states, each a
  list of four offsets.
\<close>

definition SHAPES_items :: "(string \<times> (int \<times> int) list list) list" where
  "SHAPES_items =
    [(''I'', [[(0, 1), (1, 1), (2, 1), (3, 1)],
              [(2, 0), (2, 1), (2, 2), (2, 3)]]),
     (''J'', [[(0, 0), (0, 1), (1, 1), (2, 1)],
              [(1, 0), (2, 0), (1, 1), (1, 2)],
              [(0, 1), (1, 1), (2, 1), (2, 2)],
              [(1, 0), (1, 1), (0, 2), (1, 2)]]),
     (''L'', [[(2, 0), (0, 1), (1, 1), (2, 1)],
              [(1, 0), (1, 1), (1, 2), (2, 2)],
              [(0, 1), (1, 1), (2, 1), (0, 2)],
              [(0, 0), (1, 0), (1, 1), (1, 2)]]),
     (''O'', [[(1, 0), (2, 0), (1, 1), (2, 1)]]),
     (''S'', [[(1, 0), (2, 0), (0, 1), (1, 1)],
              [(1, 0), (1, 1), (2, 1), (2, 2)]]),
     (''T'', [[(1, 0), (0, 1), (1, 1), (2, 1)],
              [(1, 0), (1, 1), (2, 1), (1, 2)],
              [(0, 1), (1, 1), (2, 1), (1, 2)],
              [(1, 0), (0, 1), (1, 1), (1, 2)]]),
     (''Z'', [[(0, 0), (1, 0), (1, 1), (2, 1)],
              [(2, 0), (1, 1), (2, 1), (1, 2)]])]"

definition SHAPES :: "string \<rightharpoonup> (int \<times> int) list list" where
  "SHAPES = map_of SHAPES_items"

text \<open>\<^verbatim>\<open>SHAPE_ORDER = list(SHAPES.keys())\<close>: the keys in insertion order.\<close>

definition SHAPE_ORDER :: "string list" where
  "SHAPE_ORDER = map fst SHAPES_items"

section \<open>Python list access\<close>

text \<open>
  \<^verbatim>\<open>xs[i]\<close> for a Python list and an integer \<open>i\<close>: an index in \<open>[-len, 0)\<close> counts from
  the end, an index outside \<open>[-len, len)\<close> raises \<^verbatim>\<open>IndexError\<close>.
\<close>

definition py_slot :: "'a list \<Rightarrow> int \<Rightarrow> error + nat" where
  "py_slot xs i =
     (if 0 \<le> i \<and> i < int (length xs) then Inr (nat i)
      else if i < 0 \<and> - int (length xs) \<le> i then Inr (nat (i + int (length xs)))
      else Inl IndexError)"

definition py_index :: "'a list \<Rightarrow> int \<Rightarrow> error + 'a" where
  "py_index xs i = (case py_slot xs i of Inl e \<Rightarrow> Inl e | Inr k \<Rightarrow> Inr (xs ! k))"

text \<open>\<^verbatim>\<open>xs[i] = v\<close>, returning the updated list.\<close>

definition py_store :: "'a list \<Rightarrow> int \<Rightarrow> 'a \<Rightarrow> error + 'a list" where
  "py_store xs i v = (case py_slot xs i of Inl e \<Rightarrow> Inl e | Inr k \<Rightarrow> Inr (xs[k := v]))"

section \<open>Piece\<close>

record Tetromino =
  name :: string
  rotation :: int
  position :: "int \<times> int"

text \<open>
  The dataclass constructor with its defaults \<^verbatim>\<open>rotation = 0\<close> and
  \<^verbatim>\<open>position = (GRID_WIDTH // 2 - 2, 0)\<close>; it validates nothing.
\<close>

definition new_Tetromino :: "string \<Rightarrow> Tetromino" where
  "new_Tetromino n = \<lparr>name = n, rotation = 0, position = (GRID_WIDTH div 2 - 2, 0)\<rparr>"

definition cells :: "Tetromino \<Rightarrow> error + (int \<times> int) list" where
  "cells t =
     (case SHAPES (name t) of
        None \<Rightarrow> Inl KeyError
      | Some rotations \<Rightarrow>
          (case py_index rotations (rotation t) of
             Inl e \<Rightarrow> Inl e
           | Inr offsets \<Rightarrow>
               (case position t of
                  (px, py) \<Rightarrow> Inr (map (\<lambda>(ox, oy). (px + ox, py + oy)) offsets))))"

definition moved :: "Tetromino \<Rightarrow> int \<Rightarrow> int \<Rightarrow> Tetromino" where
  "moved t dx dy =
     (case position t of
        (px, py) \<Rightarrow> \<lparr>name = name t, rotation = rotation t, position = (px + dx, py + dy)\<rparr>)"

text \<open>
  Python's \<^verbatim>\<open>%\<close> takes the sign of the divisor, as \<open>mod\<close> on \<open>int\<close> does; a zero divisor
  raises.
\<close>

definition rotated :: "Tetromino \<Rightarrow> int \<Rightarrow> error + Tetromino" where
  "rotated t direction =
     (case SHAPES (name t) of
        None \<Rightarrow> Inl KeyError
      | Some rotations \<Rightarrow>
          (if length rotations = 0 then Inl ZeroDivisionError
           else Inr \<lparr>name = name t,
                     rotation = (rotation t + direction) mod int (length rotations),
                     position = position t\<rparr>))"

section \<open>Board\<close>

text \<open>
  A cell is \<^verbatim>\<open>None\<close> or a kind name; a board is a list of rows, row 0 on top. The rows
  the program builds are separate list objects (\<^verbatim>\<open>create_board\<close> and \<^verbatim>\<open>clear_lines\<close> make
  each row with its own comprehension), so a board is modelled by its value.
\<close>

type_synonym board = "string option list list"

definition create_board :: board where
  "create_board = replicate (nat GRID_HEIGHT) (replicate (nat GRID_WIDTH) None)"

text \<open>The loop of \<^verbatim>\<open>is_valid_position\<close> over the cells, leaving at the first failure.\<close>

fun valid_cells :: "board \<Rightarrow> (int \<times> int) list \<Rightarrow> error + bool" where
  "valid_cells b [] = Inr True"
| "valid_cells b ((x, y) # cs) =
     (if x < 0 \<or> x \<ge> GRID_WIDTH \<or> y \<ge> GRID_HEIGHT then Inr False
      else if y \<ge> 0 then
        (case py_index b y of
           Inl e \<Rightarrow> Inl e
         | Inr row \<Rightarrow>
             (case py_index row x of
                Inl e \<Rightarrow> Inl e
              | Inr c \<Rightarrow> if c \<noteq> None then Inr False else valid_cells b cs))
      else valid_cells b cs)"

definition is_valid_position :: "board \<Rightarrow> Tetromino \<Rightarrow> error + bool" where
  "is_valid_position b piece =
     (case cells piece of Inl e \<Rightarrow> Inl e | Inr cs \<Rightarrow> valid_cells b cs)"

text \<open>The board of the data model: \<open>GRID_HEIGHT\<close> rows of \<open>GRID_WIDTH\<close> cells.\<close>

definition wf_board :: "board \<Rightarrow> bool" where
  "wf_board b \<longleftrightarrow>
     int (length b) = GRID_HEIGHT \<and> list_all (\<lambda>row. int (length row) = GRID_WIDTH) b"

text \<open>The condition of the specification on one cell, read off the board.\<close>

definition cell_free :: "board \<Rightarrow> int \<times> int \<Rightarrow> bool" where
  "cell_free b c =
     (case c of (x, y) \<Rightarrow>
        0 \<le> x \<and> x < 10 \<and> y < 20 \<and> (y < 0 \<or> b ! nat y ! nat x = None))"

text \<open>
  The loop of \<^verbatim>\<open>lock_piece\<close>: \<^verbatim>\<open>board[y][x] = piece.name\<close> reads row \<open>y\<close>, stores into it
  at \<open>x\<close> (a negative \<open>x\<close> would count from the end of the row) and the board then holds
  the changed row.
\<close>

fun lock_cells :: "board \<Rightarrow> string \<Rightarrow> (int \<times> int) list \<Rightarrow> error + board" where
  "lock_cells b n [] = Inr b"
| "lock_cells b n ((x, y) # cs) =
     (if 0 \<le> y \<and> y < GRID_HEIGHT then
        (case py_index b y of
           Inl e \<Rightarrow> Inl e
         | Inr row \<Rightarrow>
             (case py_store row x (Some n) of
                Inl e \<Rightarrow> Inl e
              | Inr row' \<Rightarrow>
                  (case py_store b y row' of
                     Inl e \<Rightarrow> Inl e
                   | Inr b' \<Rightarrow> lock_cells b' n cs)))
      else lock_cells b n cs)"

definition lock_piece :: "board \<Rightarrow> Tetromino \<Rightarrow> error + board" where
  "lock_piece b piece =
     (case cells piece of Inl e \<Rightarrow> Inl e | Inr cs \<Rightarrow> lock_cells b (name piece) cs)"

text \<open>The \<^verbatim>\<open>while\<close> loop of \<^verbatim>\<open>clear_lines\<close>: insert an empty row in front until 20 rows.\<close>

function pad_rows :: "board \<Rightarrow> board" where
  "pad_rows rows =
     (if int (length rows) < GRID_HEIGHT
      then pad_rows (replicate (nat GRID_WIDTH) None # rows)
      else rows)"
  by pat_completeness auto
termination
  by (relation "measure (\<lambda>rows. nat GRID_HEIGHT - length rows)") (auto simp: GRID_HEIGHT_def)

declare pad_rows.simps [simp del]

text \<open>The board after \<^verbatim>\<open>board[:] = remaining_rows\<close>, and the returned count.\<close>

definition clear_lines :: "board \<Rightarrow> board \<times> int" where
  "clear_lines b =
     (let remaining_rows = filter (\<lambda>row. None \<in> set row) b;
          cleared = GRID_HEIGHT - int (length remaining_rows)
      in (pad_rows remaining_rows, cleared))"

section \<open>Piece queue\<close>

text \<open>
  \<^verbatim>\<open>random.Random\<close> belongs to Python's standard library. A generator is modelled by the
  sequence of raw numbers it will still produce, so that every seed is some \<open>rng\<close>;
  \<open>randbelow r n\<close> consumes one of them and reduces it below \<open>n\<close>. \<open>shuffle\<close> is the loop
  of the library: for \<open>i\<close> from \<open>len - 1\<close> down to 1, exchange \<open>x[i]\<close> with \<open>x[randbelow(i + 1)]\<close>.
\<close>

type_synonym rng = "nat \<Rightarrow> nat"

definition randbelow :: "rng \<Rightarrow> nat \<Rightarrow> nat \<times> rng" where
  "randbelow r n = (r 0 mod n, \<lambda>k. r (Suc k))"

fun shuffle_from :: "nat \<Rightarrow> 'a list \<Rightarrow> rng \<Rightarrow> 'a list \<times> rng" where
  "shuffle_from 0 xs r = (xs, r)"
| "shuffle_from (Suc i) xs r =
     (case randbelow r (Suc i + 1) of
        (j, r') \<Rightarrow> shuffle_from i (xs[Suc i := xs ! j, j := xs ! Suc i]) r')"

definition shuffle :: "'a list \<Rightarrow> rng \<Rightarrow> 'a list \<times> rng" where
  "shuffle xs r = shuffle_from (length xs - 1) xs r"

definition next_bag :: "rng \<Rightarrow> string list \<times> rng" where
  "next_bag random_generator = shuffle SHAPE_ORDER random_generator"

text \<open>\<^verbatim>\<open>spawn_piece\<close> returns the kind, the queue and the generator after the call.\<close>

definition spawn_piece :: "string list \<Rightarrow> rng \<Rightarrow> error + string \<times> string list \<times> rng" where
  "spawn_piece queue r =
     (case (if queue = [] then (case next_bag r of (bag, r') \<Rightarrow> (queue @ bag, r'))
            else (queue, r)) of
        (q, r') \<Rightarrow>
          (case q of [] \<Rightarrow> Inl IndexError | k # rest \<Rightarrow> Inr (k, rest, r')))"

text \<open>\<open>n\<close> consecutive draws, each on the queue and generator the one before left.\<close>

fun draws :: "nat \<Rightarrow> string list \<Rightarrow> rng \<Rightarrow> error + string list \<times> string list \<times> rng" where
  "draws 0 queue r = Inr ([], queue, r)"
| "draws (Suc n) queue r =
     (case spawn_piece queue r of
        Inl e \<Rightarrow> Inl e
      | Inr (k, queue', r') \<Rightarrow>
          (case draws n queue' r' of
             Inl e \<Rightarrow> Inl e
           | Inr (ks, queue'', r'') \<Rightarrow> Inr (k # ks, queue'', r'')))"

section \<open>Hard drop\<close>

function hard_drop :: "board \<Rightarrow> Tetromino \<Rightarrow> error + Tetromino" where
  "hard_drop b dropped =
     (case is_valid_position b (moved dropped 0 1) of
        Inl e \<Rightarrow> Inl e
      | Inr ok \<Rightarrow> if \<not> ok then Inr dropped else hard_drop b (moved dropped 0 1))"
  by pat_completeness auto
termination
proof (relation "measure (\<lambda>(b, t). nat (GRID_HEIGHT - snd (position t)))")
  show "wf (measure (\<lambda>(b, t). nat (GRID_HEIGHT - snd (position t))))"
    by simp
next
  fix b :: board and dropped :: Tetromino and ok :: bool
  assume ret: "is_valid_position b (moved dropped 0 1) = Inr ok" and ok: "\<not> \<not> ok"
  obtain px py where pos: "position dropped = (px, py)"
    by (cases "position dropped")
  from ret obtain cs where cs: "cells (moved dropped 0 1) = Inr cs"
    and vc: "valid_cells b cs = Inr ok"
    by (auto simp: is_valid_position_def split: sum.splits)
  from cs obtain rotations offsets where sh: "SHAPES (name dropped) = Some rotations"
    and ix: "py_index rotations (rotation dropped) = Inr offsets"
    and cs_eq: "cs = map (\<lambda>(ox, oy). (px + ox, py + 1 + oy)) offsets"
    by (auto simp: cells_def moved_def pos split: option.splits sum.splits)
  from ix have mem: "offsets \<in> set rotations"
    by (auto simp: py_index_def py_slot_def split: if_splits)
  from sh have "\<forall>os \<in> set rotations. os \<noteq> [] \<and> 0 \<le> snd (hd os)"
    by (auto simp: SHAPES_def SHAPES_items_def split: if_splits)
  with mem have nz: "offsets \<noteq> [] \<and> 0 \<le> snd (hd offsets)"
    by blast
  then obtain ox oy rest where offs: "offsets = (ox, oy) # rest" and oy: "0 \<le> oy"
    by (auto simp: neq_Nil_conv)
  from vc ok have "py + 1 + oy < GRID_HEIGHT"
    by (auto simp: cs_eq offs split: if_splits)
  with oy have "py + 1 \<le> GRID_HEIGHT - 1"
    by simp
  then show "((b, moved dropped 0 1), (b, dropped))
      \<in> measure (\<lambda>(b, t). nat (GRID_HEIGHT - snd (position t)))"
    by (simp add: moved_def pos)
qed

declare hard_drop.simps [simp del]

section \<open>Scoring and levels\<close>

definition calculate_drop_interval :: "int \<Rightarrow> int" where
  "calculate_drop_interval level = max 100 (700 - (level - 1) * 60)"

definition scoring_table :: "int \<rightharpoonup> int" where
  "scoring_table = [0 \<mapsto> 0, 1 \<mapsto> 100, 2 \<mapsto> 300, 3 \<mapsto> 500, 4 \<mapsto> 800]"

definition update_level_and_score :: "int \<Rightarrow> int \<Rightarrow> int \<Rightarrow> int \<times> int \<times> int" where
  "update_level_and_score score lines_cleared cleared_now =
     (let score' = score + (case scoring_table cleared_now of None \<Rightarrow> 0 | Some v \<Rightarrow> v);
          lines_cleared' = lines_cleared + cleared_now;
          level = max 1 (lines_cleared' div 10 + 1)
      in (score', lines_cleared', level))"

section \<open>Lock and advance\<close>

text \<open>
  \<^verbatim>\<open>settle_piece\<close> mutates the board, the queue and the generator and returns a 7-tuple;
  the model returns the three mutated objects first, then the tuple.
\<close>

type_synonym settled =
  "(board \<times> string list \<times> rng) \<times> (Tetromino \<times> string \<times> int \<times> int \<times> int \<times> int \<times> bool)"

definition settle_piece ::
  "board \<Rightarrow> Tetromino \<Rightarrow> string \<Rightarrow> string list \<Rightarrow> rng \<Rightarrow> int \<Rightarrow> int \<Rightarrow> int \<Rightarrow> error + settled" where
  "settle_piece b current_piece next_piece_name queue r score lines_cleared level =
     (case lock_piece b current_piece of
        Inl e \<Rightarrow> Inl e
      | Inr b1 \<Rightarrow>
          (case clear_lines b1 of
             (b2, cleared) \<Rightarrow>
               (case update_level_and_score score lines_cleared cleared of
                  (score', lines_cleared', level') \<Rightarrow>
                    (let drop_interval = calculate_drop_interval level';
                         current_piece' = new_Tetromino next_piece_name
                     in (case spawn_piece queue r of
                           Inl e \<Rightarrow> Inl e
                         | Inr (next_piece_name', queue', r') \<Rightarrow>
                             (case is_valid_position b2 current_piece' of
                                Inl e \<Rightarrow> Inl e
                              | Inr ok \<Rightarrow>
                                  Inr ((b2, queue', r'),
                                       (current_piece', next_piece_name', score',
                                        lines_cleared', level', drop_interval, \<not> ok))))))))"

section \<open>Event handling of the game loop\<close>

text \<open>
  The local variables of \<^verbatim>\<open>main\<close> that the event handler reads and writes. The timer set
  by \<^verbatim>\<open>pygame.time.set_timer\<close> is represented by \<open>s_drop_interval\<close>; drawing is left out.
\<close>

record session =
  s_board :: board
  s_queue :: "string list"
  s_rng :: rng
  s_current_piece :: Tetromino
  s_next_piece_name :: string
  s_score :: int
  s_lines_cleared :: int
  s_level :: int
  s_drop_interval :: int
  s_running :: bool

datatype key = K_ESCAPE | K_LEFT | K_RIGHT | K_DOWN | K_UP | K_SPACE | K_OTHER

datatype event = QUIT | DROP_EVENT | KEYDOWN key | OTHER_EVENT

text \<open>The pattern of the arrow keys: take the moved piece if it is valid.\<close>

definition try_move :: "session \<Rightarrow> int \<Rightarrow> int \<Rightarrow> error + session" where
  "try_move s dx dy =
     (case is_valid_position (s_board s) (moved (s_current_piece s) dx dy) of
        Inl e \<Rightarrow> Inl e
      | Inr ok \<Rightarrow>
          Inr (if ok then s\<lparr>s_current_piece := moved (s_current_piece s) dx dy\<rparr> else s))"

text \<open>The \<^verbatim>\<open>for dx in (-1, 1, -2, 2)\<close> loop with its \<^verbatim>\<open>break\<close>.\<close>

fun wall_kicks :: "board \<Rightarrow> Tetromino \<Rightarrow> Tetromino \<Rightarrow> int list \<Rightarrow> error + Tetromino" where
  "wall_kicks b current_piece rot [] = Inr current_piece"
| "wall_kicks b current_piece rot (dx # dxs) =
     (case is_valid_position b (moved rot dx 0) of
        Inl e \<Rightarrow> Inl e
      | Inr ok \<Rightarrow> if ok then Inr (moved rot dx 0) else wall_kicks b current_piece rot dxs)"

text \<open>The \<^verbatim>\<open>K_UP\<close> branch: the current piece after the rotate command.\<close>

definition rotate_command :: "board \<Rightarrow> Tetromino \<Rightarrow> error + Tetromino" where
  "rotate_command b current_piece =
     (case rotated current_piece 1 of
        Inl e \<Rightarrow> Inl e
      | Inr rot \<Rightarrow>
          (case is_valid_position b rot of
             Inl e \<Rightarrow> Inl e
           | Inr ok \<Rightarrow> if ok then Inr rot else wall_kicks b current_piece rot [-1, 1, -2, 2]))"

text \<open>
  The call of \<^verbatim>\<open>settle_piece\<close> with the assignments after it; the flag returned with the
  session is the \<^verbatim>\<open>break\<close> out of the event loop.
\<close>

definition settle_session :: "session \<Rightarrow> Tetromino \<Rightarrow> error + session \<times> bool" where
  "settle_session s piece =
     (case settle_piece (s_board s) piece (s_next_piece_name s) (s_queue s) (s_rng s)
             (s_score s) (s_lines_cleared s) (s_level s) of
        Inl e \<Rightarrow> Inl e
      | Inr ((b', queue', r'), (cur, nxt, score', lines', level', interval, game_over)) \<Rightarrow>
          Inr (\<lparr>s_board = b', s_queue = queue', s_rng = r', s_current_piece = cur,
                s_next_piece_name = nxt, s_score = score', s_lines_cleared = lines',
                s_level = level', s_drop_interval = interval,
                s_running = (if game_over then False else s_running s)\<rparr>,
               game_over))"

definition no_break :: "error + session \<Rightarrow> error + session \<times> bool" where
  "no_break res = (case res of Inl e \<Rightarrow> Inl e | Inr s \<Rightarrow> Inr (s, False))"

fun handle_event :: "session \<Rightarrow> event \<Rightarrow> error + session \<times> bool" where
  "handle_event s QUIT = Inr (s\<lparr>s_running := False\<rparr>, False)"
| "handle_event s DROP_EVENT =
     (case is_valid_position (s_board s) (moved (s_current_piece s) 0 1) of
        Inl e \<Rightarrow> Inl e
      | Inr ok \<Rightarrow>
          if ok then Inr (s\<lparr>s_current_piece := moved (s_current_piece s) 0 1\<rparr>, False)
          else settle_session s (s_current_piece s))"
| "handle_event s (KEYDOWN K_ESCAPE) = Inr (s\<lparr>s_running := False\<rparr>, False)"
| "handle_event s (KEYDOWN K_LEFT) = no_break (try_move s (- 1) 0)"
| "handle_event s (KEYDOWN K_RIGHT) = no_break (try_move s 1 0)"
| "handle_event s (KEYDOWN K_DOWN) = no_break (try_move s 0 1)"
| "handle_event s (KEYDOWN K_UP) =
     (case rotate_command (s_board s) (s_current_piece s) of
        Inl e \<Rightarrow> Inl e
      | Inr t \<Rightarrow> Inr (s\<lparr>s_current_piece := t\<rparr>, False))"
| "handle_event s (KEYDOWN K_SPACE) =
     (case hard_drop (s_board s) (s_current_piece s) of
        Inl e \<Rightarrow> Inl e
      | Inr t \<Rightarrow> settle_session s t)"
| "handle_event s (KEYDOWN K_OTHER) = Inr (s, False)"
| "handle_event s OTHER_EVENT = Inr (s, False)"

section \<open>Repeated rotation and sample data\<close>

text \<open>\<open>n\<close> calls of \<^verbatim>\<open>rotated\<close> with the same direction, each on the result of the last.\<close>

fun rotated_n :: "nat \<Rightarrow> Tetromino \<Rightarrow> int \<Rightarrow> error + Tetromino" where
  "rotated_n 0 t direction = Inr t"
| "rotated_n (Suc n) t direction =
     (case rotated t direction of Inl e \<Rightarrow> Inl e | Inr t' \<Rightarrow> rotated_n n t' direction)"

text \<open>A board whose rows 3 and 5 are full, row 4 holds one cell, the others are empty.\<close>

definition demo_board :: board where
  "demo_board =
     replicate 3 (replicate 10 None)
     @ [replicate 10 (Some ''I''), Some ''J'' # replicate 9 None, replicate 10 (Some ''T'')]
     @ replicate 14 (replicate 10 None)"

text \<open>Every cell of the board is empty or holds one of the seven kinds.\<close>

definition cells_are_kinds :: "board \<Rightarrow> bool" where
  "cells_are_kinds b =
     list_all (list_all (\<lambda>c. case c of None \<Rightarrow> True | Some k \<Rightarrow> k \<in> set SHAPE_ORDER)) b"

text \<open>An empty board but for an I cell in the lower left corner.\<close>

definition one_cell_board :: board where
  "one_cell_board = (replicate 19 (replicate 10 None)) @ [Some ''I'' # replicate 9 None]"

text \<open>A session at its start values, on a given board and with a given current piece.\<close>

definition demo_session :: "board \<Rightarrow> Tetromino \<Rightarrow> session" where
  "demo_session b t =
     \<lparr>s_board = b, s_queue = [], s_rng = (\<lambda>n. 3 * n + 1), s_current_piece = t,
      s_next_piece_name = ''T'', s_score = 0, s_lines_cleared = 0, s_level = 1,
      s_drop_interval = 700, s_running = True\<rparr>"

text \<open>An empty board whose bottom row lacks exactly the columns 3, 4 and 5.\<close>

definition gap_board :: board where
  "gap_board =
     replicate 19 (replicate 10 None)
     @ [[Some ''I'', Some ''I'', Some ''I'', None, None, None,
         Some ''I'', Some ''I'', Some ''I'', Some ''I'']]"

text \<open>The generator after \<open>n\<close> of its raw numbers have been consumed.\<close>

definition advance :: "nat \<Rightarrow> rng \<Rightarrow> rng" where
  "advance n r = (\<lambda>k. r (k + n))"

section \<open>Facts about list access\<close>

lemma py_index_nonneg:
  "0 \<le> i \<Longrightarrow> i < int (length xs) \<Longrightarrow> py_index xs i = Inr (xs ! nat i)"
  by (simp add: py_index_def py_slot_def)

lemma py_store_nonneg:
  "0 \<le> i \<Longrightarrow> i < int (length xs) \<Longrightarrow> py_store xs i v = Inr (xs[nat i := v])"
  by (simp add: py_store_def py_slot_def)

lemma wf_board_row:
  "wf_board b \<Longrightarrow> 0 \<le> y \<Longrightarrow> y < 20 \<Longrightarrow> length (b ! nat y) = 10"
  by (auto simp: wf_board_def GRID_HEIGHT_def GRID_WIDTH_def list_all_length)

lemma wf_board_length: "wf_board b \<Longrightarrow> length b = 20"
  by (simp add: wf_board_def GRID_HEIGHT_def)

section \<open>Properties of the collision test\<close>

lemma valid_cells_iff:
  assumes "wf_board b"
  shows "valid_cells b cs = Inr (list_all (cell_free b) cs)"
proof (induction cs)
  case Nil
  show ?case by simp
next
  case (Cons c cs)
  obtain x y where c: "c = (x, y)" by (cases c)
  show ?case
  proof (cases "x < 0 \<or> x \<ge> 10 \<or> y \<ge> 20")
    case True
    then show ?thesis
      by (auto simp: c cell_free_def GRID_WIDTH_def GRID_HEIGHT_def)
  next
    case inb: False
    show ?thesis
    proof (cases "0 \<le> y")
      case True
      with inb assms have row: "py_index b y = Inr (b ! nat y)"
        by (intro py_index_nonneg) (simp_all add: wf_board_length)
      from True inb assms have len: "length (b ! nat y) = 10"
        by (intro wf_board_row) simp_all
      from inb len have cell: "py_index (b ! nat y) x = Inr (b ! nat y ! nat x)"
        by (intro py_index_nonneg) simp_all
      from True inb show ?thesis
        by (simp add: c row cell Cons.IH cell_free_def GRID_WIDTH_def GRID_HEIGHT_def)
    next
      case False
      with inb show ?thesis
        by (simp add: c Cons.IH cell_free_def GRID_WIDTH_def GRID_HEIGHT_def)
    qed
  qed
qed

text \<open>
  C1. On a board of the data model (20 rows of 10 cells) and for a piece whose cells can
  be computed, \<open>is_valid_position\<close> returns true exactly when every occupied cell \<open>(x, y)\<close>
  has \<open>0 \<le> x < 10\<close>, \<open>y < 20\<close>, and is above the grid (\<open>y < 0\<close>) or on an empty board cell.
  So it returns false as soon as one cell has \<open>x < 0\<close>, \<open>x \<ge> 10\<close> or \<open>y \<ge> 20\<close>, and a piece
  whose cells all have \<open>y < 0\<close> is judged on its columns alone, whatever the board holds.
\<close>

theorem is_valid_position_spec:
  assumes "wf_board b" and "cells p = Inr cs"
  shows "is_valid_position b p =
           Inr (\<forall>(x, y) \<in> set cs.
                  0 \<le> x \<and> x < 10 \<and> y < 20 \<and> (y < 0 \<or> b ! nat y ! nat x = None))
         \<and> ((\<exists>(x, y) \<in> set cs. x < 0 \<or> x \<ge> 10 \<or> y \<ge> 20) \<longrightarrow>
              is_valid_position b p = Inr False)
         \<and> ((\<forall>(x, y) \<in> set cs. y < 0) \<longrightarrow>
              is_valid_position b p = Inr (\<forall>(x, y) \<in> set cs. 0 \<le> x \<and> x < 10))"
proof -
  have eq: "is_valid_position b p = Inr (list_all (cell_free b) cs)"
    using assms by (simp add: is_valid_position_def valid_cells_iff)
  have "is_valid_position b p =
           Inr (\<forall>(x, y) \<in> set cs.
                  0 \<le> x \<and> x < 10 \<and> y < 20 \<and> (y < 0 \<or> b ! nat y ! nat x = None))"
    unfolding eq by (auto simp: list_all_iff cell_free_def)
  moreover have "(\<exists>(x, y) \<in> set cs. x < 0 \<or> x \<ge> 10 \<or> y \<ge> 20) \<longrightarrow>
      is_valid_position b p = Inr False"
    unfolding eq by (fastforce simp: list_all_iff cell_free_def)
  moreover have "(\<forall>(x, y) \<in> set cs. y < 0) \<longrightarrow>
      is_valid_position b p = Inr (\<forall>(x, y) \<in> set cs. 0 \<le> x \<and> x < 10)"
    unfolding eq by (fastforce simp: list_all_iff cell_free_def)
  ultimately show ?thesis by blast
qed

text \<open>An instance: the T piece at its initial position on the empty board.\<close>

lemma wf_board_create_board: "wf_board create_board"
  by (simp add: wf_board_def create_board_def GRID_HEIGHT_def GRID_WIDTH_def list_all_iff)

lemma cells_new_T: "cells (new_Tetromino ''T'') = Inr [(4, 0), (3, 1), (4, 1), (5, 1)]"
  by (simp add: cells_def new_Tetromino_def SHAPES_def SHAPES_items_def py_index_def
      py_slot_def GRID_WIDTH_def)

theorem is_valid_position_spec_witness:
  "wf_board create_board
   \<and> cells (new_Tetromino ''T'') = Inr [(4, 0), (3, 1), (4, 1), (5, 1)]
   \<and> is_valid_position create_board (new_Tetromino ''T'') = Inr True"
  using is_valid_position_spec [OF wf_board_create_board cells_new_T]
    wf_board_create_board cells_new_T
  by (simp add: create_board_def GRID_HEIGHT_def GRID_WIDTH_def)

section \<open>Properties of line clearing\<close>

lemma pad_rows_eq:
  "length rows \<le> 20 \<Longrightarrow> pad_rows rows = replicate (20 - length rows) (replicate 10 None) @ rows"
proof (induction rows rule: pad_rows.induct)
  case (1 rows)
  show ?case
  proof (cases "length rows < 20")
    case True
    then have "pad_rows rows = pad_rows (replicate 10 None # rows)"
      by (subst pad_rows.simps) (simp add: GRID_HEIGHT_def GRID_WIDTH_def)
    also have "\<dots> = replicate (20 - length (replicate 10 None # rows)) (replicate 10 None)
        @ (replicate 10 None # rows)"
      using True "1.IH" by (simp add: GRID_HEIGHT_def GRID_WIDTH_def)
    also have "\<dots> = replicate (20 - length rows) (replicate 10 None) @ rows"
    proof -
      from True have "20 - length rows = Suc (19 - length rows)" by simp
      then show ?thesis by (simp add: replicate_app_Cons_same)
    qed
    finally show ?thesis .
  next
    case False
    with "1.prems" have "length rows = 20" by simp
    then show ?thesis
      by (subst pad_rows.simps) (simp add: GRID_HEIGHT_def)
  qed
qed

lemma filter_split_length:
  "length (filter P xs) + length (filter (\<lambda>x. \<not> P x) xs) = length xs"
  by (induction xs) auto

lemma clear_lines_eq:
  assumes "length b = 20"
  shows "clear_lines b =
     (replicate (length (filter (\<lambda>row. None \<notin> set row) b)) (replicate 10 None)
        @ filter (\<lambda>row. None \<in> set row) b,
      int (length (filter (\<lambda>row. None \<notin> set row) b)))"
proof -
  let ?keep = "filter (\<lambda>row. None \<in> set row) b"
  let ?full = "filter (\<lambda>row. None \<notin> set row) b"
  have sum: "length ?keep + length ?full = 20"
    using filter_split_length [of "\<lambda>row. None \<in> set row" b] assms by simp
  then have le: "length ?keep \<le> 20" by simp
  have k: "20 - length ?keep = length ?full" using sum by simp
  have k': "GRID_HEIGHT - int (length ?keep) = int (length ?full)"
    using sum by (simp add: GRID_HEIGHT_def)
  show ?thesis
    by (simp add: clear_lines_def Let_def pad_rows_eq [OF le] k k')
qed

lemma filter_all: "(\<forall>x \<in> set xs. P x) \<Longrightarrow> filter P xs = xs"
  by (induction xs) auto

lemma split_3_5:
  assumes "length (b::'a list) = 20"
  shows "b = take 3 b @ b ! 3 # b ! 4 # b ! 5 # drop 6 b"
proof -
  have "b = take 3 b @ drop 3 b" by simp
  also have "drop 3 b = b ! 3 # drop 4 b" using assms Cons_nth_drop_Suc [of 3 b] by simp
  also have "drop 4 b = b ! 4 # drop 5 b" using assms Cons_nth_drop_Suc [of 4 b] by simp
  also have "drop 5 b = b ! 5 # drop 6 b" using assms Cons_nth_drop_Suc [of 5 b] by simp
  finally show ?thesis .
qed

lemma clear_lines_rows_3_5:
  assumes len: "length b = 20"
    and full: "\<forall>i<20. (None \<notin> set (b ! i)) = (i = 3 \<or> i = 5)"
  shows "clear_lines b = (replicate 10 None # replicate 10 None # take 3 b @ b ! 4 # drop 6 b, 2)"
proof -
  let ?P = "\<lambda>row. None \<in> set row"
  have other: "None \<in> set (b ! i)" if "i < 20" "i \<noteq> 3" "i \<noteq> 5" for i
    using full that by blast
  have t: "\<forall>row \<in> set (take 3 b). ?P row"
    unfolding all_set_conv_all_nth using len by (auto intro: other)
  have d: "\<forall>row \<in> set (drop 6 b). ?P row"
    unfolding all_set_conv_all_nth using len by (auto intro: other)
  have r3: "\<not> ?P (b ! 3)" and r5: "\<not> ?P (b ! 5)"
    using full by simp_all
  have r4: "?P (b ! 4)"
    by (rule other) simp_all
  have keep: "filter ?P b = take 3 b @ b ! 4 # drop 6 b"
    by (subst split_3_5 [OF len]) (simp add: filter_all [OF t] filter_all [OF d] r3 r4 r5 del: append_take_drop_id)
  have "length (filter ?P b) + length (filter (\<lambda>row. \<not> ?P row) b) = 20"
    using filter_split_length [of ?P b] len by simp
  then have n: "length (filter (\<lambda>row. None \<notin> set row) b) = 2"
    using len by (simp add: keep)
  show ?thesis
    by (simp add: clear_lines_eq [OF len] n keep numeral_2_eq_2)
qed

text \<open>
  C2. On a board of 20 rows, \<open>clear_lines\<close> leaves the rows that contain an empty cell, in
  their order, at the bottom, below as many fresh empty rows as there were rows without an
  empty cell, and returns that number; the board still has 20 rows. When the rows without
  an empty cell are exactly rows 3 and 5, the result is two empty rows, then rows 0, 1, 2,
  4, 6, ..., 19 of the old board, and the count is 2.
\<close>

theorem clear_lines_spec:
  assumes "length b = 20"
  shows "clear_lines b =
           (replicate (length (filter (\<lambda>row. None \<notin> set row) b)) (replicate 10 None)
              @ filter (\<lambda>row. None \<in> set row) b,
            int (length (filter (\<lambda>row. None \<notin> set row) b)))
         \<and> length (fst (clear_lines b)) = 20
         \<and> ((\<forall>i<20. (None \<notin> set (b ! i)) = (i = 3 \<or> i = 5)) \<longrightarrow>
              clear_lines b =
                (replicate 10 None # replicate 10 None # take 3 b @ b ! 4 # drop 6 b, 2))"
proof -
  have "length (filter (\<lambda>row. None \<in> set row) b)
      + length (filter (\<lambda>row. \<not> None \<in> set row) b) = 20"
    using filter_split_length [of "\<lambda>row. None \<in> set row" b] assms by simp
  then have "length (fst (clear_lines b)) = 20"
    by (simp add: clear_lines_eq [OF assms])
  then show ?thesis
    using clear_lines_eq [OF assms] clear_lines_rows_3_5 [OF assms] by blast
qed

lemma all_less_20: "(\<forall>i<20. P (i::nat)) \<longleftrightarrow> list_all P [0..<20]"
  by (auto simp: list_all_iff)

lemma demo_board_full: "\<forall>i<20. (None \<notin> set (demo_board ! i)) = (i = 3 \<or> i = 5)"
  unfolding all_less_20 by (simp add: demo_board_def upt_rec nth_append)

lemma demo_board_length: "length demo_board = 20"
  by (simp add: demo_board_def)

theorem clear_lines_spec_witness:
  "length demo_board = 20
   \<and> list_all (\<lambda>i. (None \<notin> set (demo_board ! i)) = (i = 3 \<or> i = 5)) [0..<20]
   \<and> clear_lines demo_board =
       (replicate 10 None # replicate 10 None # replicate 3 (replicate 10 None)
          @ (Some ''J'' # replicate 9 None) # replicate 14 (replicate 10 None), 2)"
  using clear_lines_spec [OF demo_board_length] demo_board_full demo_board_length
  unfolding all_less_20 by (simp add: demo_board_def nth_append)

section \<open>Properties of scoring and levels\<close>

text \<open>
  C4. \<open>update_level_and_score\<close> adds 0, 100, 300, 500 or 800 to the score for 0, 1, 2, 3 or 4
  cleared rows and nothing for any other count, adds the count to the lines, and sets the
  level to \<open>max 1 (lines div 10 + 1)\<close>; the drop interval of a level is
  \<open>max 100 (700 - (level - 1) * 60)\<close>. From score 1000 and 9 lines, 2 cleared rows give
  score 1300, 11 lines, level 2 and an interval of 640.
\<close>

theorem scoring_policy:
  "update_level_and_score score lines_cleared cleared_now =
     (score + (if cleared_now = 0 then 0 else if cleared_now = 1 then 100
               else if cleared_now = 2 then 300 else if cleared_now = 3 then 500
               else if cleared_now = 4 then 800 else 0),
      lines_cleared + cleared_now,
      max 1 ((lines_cleared + cleared_now) div 10 + 1))
   \<and> calculate_drop_interval level = max 100 (700 - (level - 1) * 60)
   \<and> update_level_and_score 1000 9 2 = (1300, 11, 2)
   \<and> calculate_drop_interval 2 = 640"
  by (simp add: update_level_and_score_def calculate_drop_interval_def scoring_table_def Let_def)

theorem scoring_policy_witness:
  "update_level_and_score 250 38 4 = (1050, 42, 5) \<and> calculate_drop_interval 5 = 460
   \<and> update_level_and_score 0 0 7 = (0, 7, 1) \<and> calculate_drop_interval 30 = 100"
  using scoring_policy [of 250 38 4 5] scoring_policy [of 0 0 7 30]
  by simp

section \<open>Properties of rotation\<close>

lemma SHAPES_cases:
  assumes "SHAPES k = Some rots"
  shows "k \<in> set SHAPE_ORDER"
    and "length rots = 1 \<or> length rots = 2 \<or> length rots = 4"
    and "\<forall>os \<in> set rots. length os = 4
           \<and> (\<forall>(ox, oy) \<in> set os. 0 \<le> ox \<and> ox \<le> 3 \<and> 0 \<le> oy \<and> oy \<le> 3)"
  using assms by (auto simp: SHAPES_def SHAPES_items_def SHAPE_ORDER_def split: if_splits)

lemma SHAPES_O: "SHAPES ''O'' = Some [[(1, 0), (2, 0), (1, 1), (2, 1)]]"
  by (simp add: SHAPES_def SHAPES_items_def)

lemma rotated_known:
  assumes "SHAPES (name p) = Some rots"
  shows "rotated p d = Inr \<lparr>name = name p, rotation = (rotation p + d) mod int (length rots),
                            position = position p\<rparr>"
  using assms SHAPES_cases(2) [OF assms] by (auto simp: rotated_def)

lemma four_steps_mod:
  assumes "n = 1 \<or> n = 2 \<or> n = (4::int)" and "0 \<le> r" and "r < n"
  shows "((((r + d) mod n + d) mod n + d) mod n + d) mod n = r"
proof -
  have "((((r + d) mod n + d) mod n + d) mod n + d) mod n = (r + 4 * d) mod n"
    by (simp add: mod_simps algebra_simps)
  also have "\<dots> = r mod n"
    using assms(1) by (elim disjE) (simp_all; presburger)+
  also have "\<dots> = r" using assms by simp
  finally show ?thesis .
qed

lemma rotated_4:
  assumes sh: "SHAPES (name p) = Some rots" and lo: "0 \<le> rotation p"
    and hi: "rotation p < int (length rots)"
  shows "rotated_n 4 p d = Inr p"
proof -
  let ?n = "int (length rots)"
  have n: "?n = 1 \<or> ?n = 2 \<or> ?n = 4"
    using SHAPES_cases(2) [OF sh] by auto
  have step: "rotated q d = Inr (q\<lparr>rotation := (rotation q + d) mod ?n\<rparr>)"
    if "name q = name p" for q
    using rotated_known [of q rots d] sh that by simp
  have "rotated_n 4 p d =
     Inr (p\<lparr>rotation := ((((rotation p + d) mod ?n + d) mod ?n + d) mod ?n + d) mod ?n\<rparr>)"
    by (simp add: numeral_eq_Suc step)
  then show ?thesis
    by (simp add: four_steps_mod [OF n lo hi])
qed

lemma rotated_O:
  assumes "name p = ''O''" and "rotation p = 0"
  shows "rotated_n n p d = Inr p"
proof (induction n)
  case 0
  show ?case by simp
next
  case (Suc n)
  have "rotated p d = Inr p"
    using rotated_known [of p _ d, OF SHAPES_O [folded assms(1)]] assms(2) by simp
  with Suc show ?case by simp
qed

lemma cells_in_range:
  assumes sh: "SHAPES (name p) = Some rots" and lo: "0 \<le> rotation p"
    and hi: "rotation p < int (length rots)"
  shows "\<exists>cs. cells p = Inr cs"
  using assms by (auto simp: cells_def py_index_def py_slot_def split: prod.splits)

lemma cells_O:
  assumes "name p = ''O''" and "cells p = Inr cs"
  shows "cells (p\<lparr>rotation := 0\<rparr>) = Inr cs"
  using assms
  by (auto simp: cells_def SHAPES_O py_index_def py_slot_def split: if_splits prod.splits)

lemma rotated_n_O:
  assumes o: "name p = ''O''" and cs: "cells p = Inr cs"
  shows "\<exists>p'. rotated_n n p d = Inr p' \<and> cells p' = Inr cs"
proof (cases n)
  case 0
  with cs show ?thesis by simp
next
  case (Suc m)
  have "rotated p d = Inr (p\<lparr>rotation := 0\<rparr>)"
    using rotated_known [of p _ d, OF SHAPES_O [folded o]] by simp
  moreover have "rotated_n m (p\<lparr>rotation := 0\<rparr>) d = Inr (p\<lparr>rotation := 0\<rparr>)"
    by (rule rotated_O) (simp_all add: o)
  ultimately show ?thesis
    using cells_O [OF o cs] by (simp add: Suc)
qed

text \<open>
  C6. For a piece of a known kind, \<open>rotated\<close> with any direction (so with +1 and with -1)
  returns the piece with the same kind and anchor and with rotation index
  \<open>(index + direction) mod count\<close>, count being the number of rotation states of the kind.
  When the index of the piece lies in \<open>[0, count)\<close>, four rotations in the same direction
  give a piece with the original index and the same cells. Any number of rotations of an
  O piece whose cells can be computed gives a piece with the same cells.
\<close>

theorem rotated_spec:
  assumes "SHAPES (name p) = Some rots"
  shows "rotated p d =
           Inr \<lparr>name = name p, rotation = (rotation p + d) mod int (length rots),
                position = position p\<rparr>
         \<and> (0 \<le> rotation p \<and> rotation p < int (length rots) \<longrightarrow>
              (\<exists>p' cs. rotated_n 4 p d = Inr p' \<and> rotation p' = rotation p
                 \<and> cells p = Inr cs \<and> cells p' = Inr cs))
         \<and> (name p = ''O'' \<longrightarrow>
              (\<forall>cs. cells p = Inr cs \<longrightarrow> (\<exists>p'. rotated_n n p d = Inr p' \<and> cells p' = Inr cs)))"
  using rotated_known [OF assms] rotated_4 [OF assms] cells_in_range [OF assms] rotated_n_O
  by auto

lemma SHAPES_T: "SHAPES ''T'' = Some
   [[(1, 0), (0, 1), (1, 1), (2, 1)], [(1, 0), (1, 1), (2, 1), (1, 2)],
    [(0, 1), (1, 1), (2, 1), (1, 2)], [(1, 0), (0, 1), (1, 1), (1, 2)]]"
  by (simp add: SHAPES_def SHAPES_items_def)

theorem rotated_spec_witness:
  "rotated \<lparr>name = ''T'', rotation = 3, position = (3, 0)\<rparr> 1
     = Inr \<lparr>name = ''T'', rotation = 0, position = (3, 0)\<rparr>
   \<and> rotated \<lparr>name = ''T'', rotation = 0, position = (3, 0)\<rparr> (- 1)
     = Inr \<lparr>name = ''T'', rotation = 3, position = (3, 0)\<rparr>
   \<and> (\<exists>p'. rotated_n 4 \<lparr>name = ''T'', rotation = 3, position = (3, 0)\<rparr> 1 = Inr p'
         \<and> rotation p' = 3
         \<and> cells p' = Inr [(4, 0), (3, 1), (4, 1), (4, 2)])
   \<and> (\<exists>p'. rotated_n 5 \<lparr>name = ''O'', rotation = 0, position = (3, 0)\<rparr> 1 = Inr p'
         \<and> cells p' = Inr [(4, 0), (5, 0), (4, 1), (5, 1)])"
  using rotated_spec [of "\<lparr>name = ''T'', rotation = 3, position = (3, 0)\<rparr>" _ 1 0,
      simplified, OF SHAPES_T]
    rotated_spec [of "\<lparr>name = ''T'', rotation = 0, position = (3, 0)\<rparr>" _ "- 1" 0,
      simplified, OF SHAPES_T]
    rotated_spec [of "\<lparr>name = ''O'', rotation = 0, position = (3, 0)\<rparr>" _ 1 5,
      simplified, OF SHAPES_O]
  by (auto simp: cells_def SHAPES_T SHAPES_O py_index_def py_slot_def)

section \<open>Cells of invalid pieces\<close>

text \<open>
  The T piece with rotation index -1, which is outside \<open>[0, 4)\<close>: its cells are computed
  without any failure, and are those of state 3.
\<close>

theorem cells_rotation_counterexample:
  "SHAPES ''T'' \<noteq> None \<and> \<not> (0 \<le> (- 1 :: int))
   \<and> cells \<lparr>name = ''T'', rotation = - 1, position = (3, 0)\<rparr>
       = Inr [(4, 0), (3, 1), (4, 1), (4, 2)]"
  by (simp add: cells_def SHAPES_T py_index_def py_slot_def)

text \<open>
  C9, as the code has it. Computing the cells of a piece of an unknown kind raises
  \<^verbatim>\<open>KeyError\<close>; for a known kind with \<open>count\<close> rotation states, a rotation index below
  \<open>-count\<close> or from \<open>count\<close> upwards raises \<^verbatim>\<open>IndexError\<close>, an index in \<open>[0, count)\<close> gives
  the anchor-translated offsets of that state, and an index in \<open>[-count, 0)\<close> is accepted
  and gives the cells of state \<open>index + count\<close>.
\<close>

theorem cells_errors:
  "(SHAPES (name t) = None \<longrightarrow> cells t = Inl KeyError)
   \<and> (\<forall>rots. SHAPES (name t) = Some rots \<longrightarrow>
        (rotation t < - int (length rots) \<or> int (length rots) \<le> rotation t \<longrightarrow>
           cells t = Inl IndexError)
        \<and> (0 \<le> rotation t \<and> rotation t < int (length rots) \<longrightarrow>
             cells t = Inr (map (\<lambda>(ox, oy). (fst (position t) + ox, snd (position t) + oy))
                              (rots ! nat (rotation t))))
        \<and> (- int (length rots) \<le> rotation t \<and> rotation t < 0 \<longrightarrow>
             cells t = cells (t\<lparr>rotation := rotation t + int (length rots)\<rparr>)))"
  by (auto simp: cells_def py_index_def py_slot_def split: prod.splits)

theorem cells_errors_witness:
  "cells \<lparr>name = ''X'', rotation = 0, position = (3, 0)\<rparr> = Inl KeyError
   \<and> cells \<lparr>name = ''T'', rotation = 4, position = (3, 0)\<rparr> = Inl IndexError
   \<and> cells \<lparr>name = ''T'', rotation = - 5, position = (3, 0)\<rparr> = Inl IndexError
   \<and> cells \<lparr>name = ''T'', rotation = - 4, position = (3, 0)\<rparr>
       = cells \<lparr>name = ''T'', rotation = 0, position = (3, 0)\<rparr>"
  using cells_errors [of "\<lparr>name = ''X'', rotation = 0, position = (3, 0)\<rparr>"]
    cells_errors [of "\<lparr>name = ''T'', rotation = 4, position = (3, 0)\<rparr>"]
    cells_errors [of "\<lparr>name = ''T'', rotation = - 5, position = (3, 0)\<rparr>"]
    cells_errors [of "\<lparr>name = ''T'', rotation = - 4, position = (3, 0)\<rparr>"]
  by (simp add: SHAPES_T) (simp add: SHAPES_def SHAPES_items_def)

section \<open>Properties of locking\<close>

lemma wf_board_update:
  assumes "wf_board b" and "k < length b"
  shows "wf_board (b[i := (b ! k)[j := v]])"
proof (cases "i < length b")
  case True
  with assms show ?thesis
    by (auto simp: wf_board_def list_all_length nth_list_update)
next
  case False
  then have "b[i := (b ! k)[j := v]] = b"
    by (intro list_update_beyond) simp
  with assms show ?thesis by simp
qed

lemma lock_cells_step:
  assumes "wf_board b" and "0 \<le> x" and "x < 10" and "0 \<le> y" and "y < 20"
  shows "lock_cells b n ((x, y) # cs) =
           lock_cells (b[nat y := (b ! nat y)[nat x := Some n]]) n cs"
proof -
  have len: "length b = 20" using assms(1) by (rule wf_board_length)
  have row: "py_index b y = Inr (b ! nat y)"
    using assms len by (intro py_index_nonneg) simp_all
  have rl: "length (b ! nat y) = 10"
    using assms by (intro wf_board_row) simp_all
  have st: "py_store (b ! nat y) x (Some n) = Inr ((b ! nat y)[nat x := Some n])"
    using assms rl by (intro py_store_nonneg) simp_all
  have st2: "py_store b y ((b ! nat y)[nat x := Some n])
      = Inr (b[nat y := (b ! nat y)[nat x := Some n]])"
    using assms len by (intro py_store_nonneg) simp_all
  show ?thesis
    using assms by (simp add: row st st2 GRID_HEIGHT_def)
qed

lemma lock_cells_skip:
  assumes "y < 0"
  shows "lock_cells b n ((x, y) # cs) = lock_cells b n cs"
  using assms by simp

lemma lock_cells_spec:
  assumes "wf_board b" and "\<forall>(x, y) \<in> set cs. 0 \<le> x \<and> x < 10 \<and> y < 20"
  shows "\<exists>b'. lock_cells b n cs = Inr b' \<and> wf_board b'
           \<and> (\<forall>x y. 0 \<le> x \<and> x < 10 \<and> 0 \<le> y \<and> y < 20 \<longrightarrow>
                 b' ! nat y ! nat x = (if (x, y) \<in> set cs then Some n else b ! nat y ! nat x))"
  using assms
proof (induction cs arbitrary: b)
  case Nil
  then show ?case by simp
next
  case (Cons c cs)
  obtain cx cy where c: "c = (cx, cy)" by (cases c)
  from Cons.prems(2) have cb: "0 \<le> cx" "cx < 10" "cy < 20"
    and rest: "\<forall>(x, y) \<in> set cs. 0 \<le> x \<and> x < 10 \<and> y < 20"
    by (auto simp: c)
  show ?case
  proof (cases "0 \<le> cy")
    case True
    let ?b1 = "b[nat cy := (b ! nat cy)[nat cx := Some n]]"
    have len: "length b = 20" using Cons.prems(1) by (rule wf_board_length)
    have wf1: "wf_board ?b1"
      using Cons.prems(1) cb True len by (intro wf_board_update) simp_all
    from Cons.IH [OF wf1 rest] obtain b' where b': "lock_cells ?b1 n cs = Inr b'"
      and wf': "wf_board b'"
      and get: "\<forall>x y. 0 \<le> x \<and> x < 10 \<and> 0 \<le> y \<and> y < 20 \<longrightarrow>
                 b' ! nat y ! nat x = (if (x, y) \<in> set cs then Some n else ?b1 ! nat y ! nat x)"
      by blast
    have eq: "lock_cells b n (c # cs) = Inr b'"
      using lock_cells_step [OF Cons.prems(1) cb(1) cb(2) True cb(3)] b' by (simp add: c)
    have old: "?b1 ! nat y ! nat x = (if (x, y) = (cx, cy) then Some n else b ! nat y ! nat x)"
      if "0 \<le> x" "x < 10" "0 \<le> y" "y < 20" for x y
    proof -
      have rl: "length (b ! nat cy) = 10"
        using Cons.prems(1) True cb by (intro wf_board_row) simp_all
      show ?thesis
        using that True cb len rl by (auto simp: nth_list_update)
    qed
    have "b' ! nat y ! nat x = (if (x, y) \<in> set (c # cs) then Some n else b ! nat y ! nat x)"
      if "0 \<le> x \<and> x < 10 \<and> 0 \<le> y \<and> y < 20" for x y
      using get [rule_format, OF that] old [of x y] that by (auto simp: c)
    with eq wf' show ?thesis by blast
  next
    case False
    from Cons.IH [OF Cons.prems(1) rest] obtain b' where b': "lock_cells b n cs = Inr b'"
      and wf': "wf_board b'"
      and get: "\<forall>x y. 0 \<le> x \<and> x < 10 \<and> 0 \<le> y \<and> y < 20 \<longrightarrow>
                 b' ! nat y ! nat x = (if (x, y) \<in> set cs then Some n else b ! nat y ! nat x)"
      by blast
    have eq: "lock_cells b n (c # cs) = Inr b'"
      using False b' by (simp add: c)
    have "b' ! nat y ! nat x = (if (x, y) \<in> set (c # cs) then Some n else b ! nat y ! nat x)"
      if "0 \<le> x \<and> x < 10 \<and> 0 \<le> y \<and> y < 20" for x y
      using get [rule_format, OF that] that False by (auto simp: c)
    with eq wf' show ?thesis by blast
  qed
qed

lemma valid_position_cells:
  assumes "wf_board b" and "is_valid_position b p = Inr True"
  obtains cs where "cells p = Inr cs" and "list_all (cell_free b) cs"
proof -
  from assms(2) obtain cs where cs: "cells p = Inr cs" and "valid_cells b cs = Inr True"
    by (auto simp: is_valid_position_def split: sum.splits)
  then have "list_all (cell_free b) cs"
    using valid_cells_iff [OF assms(1), of cs] by simp
  with cs that show ?thesis by blast
qed

lemma cells_known_kind:
  assumes "cells p = Inr cs"
  shows "name p \<in> set SHAPE_ORDER"
proof -
  from assms obtain rots where "SHAPES (name p) = Some rots"
    by (auto simp: cells_def split: option.splits)
  then show ?thesis by (rule SHAPES_cases(1))
qed

lemma cells_are_kinds_nth:
  assumes "wf_board b"
  shows "cells_are_kinds b \<longleftrightarrow>
     (\<forall>i<20. \<forall>j<10. \<forall>k. b ! i ! j = Some k \<longrightarrow> k \<in> set SHAPE_ORDER)"
proof -
  have len: "length b = 20" using assms by (rule wf_board_length)
  have rl: "length (b ! i) = 10" if "i < 20" for i
    using wf_board_row [OF assms, of "int i"] that by simp
  show ?thesis
    unfolding cells_are_kinds_def list_all_length len
    by (auto simp: rl split: option.splits)
qed

text \<open>
  C10. On a board of the data model and for a piece that \<open>is_valid_position\<close> accepts,
  \<open>lock_piece\<close> returns a board in which every cell \<open>(x, y)\<close> of the grid holds the kind of
  the piece if the piece occupies it and its old value otherwise (cells of the piece above
  the grid are not written anywhere); the board still has 20 rows of 10 cells, and if every
  cell held nothing or one of the seven kinds before, so it does afterwards.
\<close>

theorem lock_piece_spec:
  assumes "wf_board b" and "is_valid_position b p = Inr True"
  shows "\<exists>b' cs. cells p = Inr cs \<and> lock_piece b p = Inr b'
           \<and> (\<forall>x y. 0 \<le> x \<and> x < 10 \<and> 0 \<le> y \<and> y < 20 \<longrightarrow>
                 b' ! nat y ! nat x
                   = (if (x, y) \<in> set cs then Some (name p) else b ! nat y ! nat x))
           \<and> length b' = 20 \<and> list_all (\<lambda>row. length row = 10) b'
           \<and> (cells_are_kinds b \<longrightarrow> cells_are_kinds b')"
proof -
  from assms obtain cs where cs: "cells p = Inr cs" and free: "list_all (cell_free b) cs"
    by (rule valid_position_cells)
  from free have bounds: "\<forall>(x, y) \<in> set cs. 0 \<le> x \<and> x < 10 \<and> y < 20"
    by (auto simp: list_all_iff cell_free_def)
  from lock_cells_spec [OF assms(1) bounds, of "name p"]
  obtain b' where b': "lock_cells b (name p) cs = Inr b'" and wf': "wf_board b'"
    and get: "\<forall>x y. 0 \<le> x \<and> x < 10 \<and> 0 \<le> y \<and> y < 20 \<longrightarrow>
                b' ! nat y ! nat x
                  = (if (x, y) \<in> set cs then Some (name p) else b ! nat y ! nat x)"
    by blast
  have lock: "lock_piece b p = Inr b'"
    by (simp add: lock_piece_def cs b')
  have dims: "length b' = 20 \<and> list_all (\<lambda>row. length row = 10) b'"
    using wf' by (simp add: wf_board_def GRID_HEIGHT_def GRID_WIDTH_def)
  have kinds: "cells_are_kinds b'" if k: "cells_are_kinds b"
  proof -
    have "k \<in> set SHAPE_ORDER" if "i < 20" "j < 10" "b' ! i ! j = Some k" for i j k
    proof -
      have "b' ! i ! j = (if (int j, int i) \<in> set cs then Some (name p) else b ! i ! j)"
        using get [rule_format, of "int j" "int i"] that by simp
      moreover have "b ! i ! j = Some k \<longrightarrow> k \<in> set SHAPE_ORDER"
        using k that by (simp add: cells_are_kinds_nth [OF assms(1)])
      ultimately show ?thesis
        using cells_known_kind [OF cs] that(3) by (auto split: if_splits)
    qed
    then show ?thesis
      by (simp add: cells_are_kinds_nth [OF wf'])
  qed
  from cs lock get dims kinds show ?thesis by blast
qed

lemma wf_board_one_cell: "wf_board one_cell_board"
  by (simp add: wf_board_def one_cell_board_def GRID_HEIGHT_def GRID_WIDTH_def list_all_iff)

lemma valid_T_one: "is_valid_position one_cell_board \<lparr>name = ''T'', rotation = 0, position = (3, - 1)\<rparr> = Inr True"
  by (simp add: is_valid_position_def cells_def SHAPES_T py_index_def py_slot_def
      one_cell_board_def GRID_HEIGHT_def GRID_WIDTH_def nth_append)

theorem lock_piece_spec_witness:
  "wf_board one_cell_board
   \<and> is_valid_position one_cell_board \<lparr>name = ''T'', rotation = 0, position = (3, - 1)\<rparr> = Inr True
   \<and> (\<exists>b'. lock_piece one_cell_board \<lparr>name = ''T'', rotation = 0, position = (3, - 1)\<rparr> = Inr b'
        \<and> b' ! 0 ! 3 = Some ''T'' \<and> b' ! 0 ! 4 = Some ''T'' \<and> b' ! 0 ! 5 = Some ''T''
        \<and> b' ! 0 ! 6 = None \<and> b' ! 19 ! 0 = Some ''I'' \<and> length b' = 20)"
proof -
  let ?p = "\<lparr>name = ''T'', rotation = 0, position = (3, - 1)\<rparr>"
  have cs: "cells ?p = Inr [(4, - 1), (3, 0), (4, 0), (5, 0)]"
    by (simp add: cells_def SHAPES_T py_index_def py_slot_def)
  from lock_piece_spec [OF wf_board_one_cell valid_T_one] obtain b' where
    lock: "lock_piece one_cell_board ?p = Inr b'" and len: "length b' = 20"
    and get: "\<forall>x y. 0 \<le> x \<and> x < 10 \<and> 0 \<le> y \<and> y < 20 \<longrightarrow>
                b' ! nat y ! nat x
                  = (if (x, y) \<in> set [(4, - 1), (3, 0), (4, 0), (5, 0)] then Some (name ?p)
                     else one_cell_board ! nat y ! nat x)"
    unfolding cs by auto
  have "b' ! 0 ! 3 = Some ''T''" using get [rule_format, of 3 0] by simp
  moreover have "b' ! 0 ! 4 = Some ''T''" using get [rule_format, of 4 0] by simp
  moreover have "b' ! 0 ! 5 = Some ''T''" using get [rule_format, of 5 0] by simp
  moreover have "b' ! 0 ! 6 = None"
    using get [rule_format, of 6 0] by (simp add: one_cell_board_def nth_append)
  moreover have "b' ! 19 ! 0 = Some ''I''"
    using get [rule_format, of 0 19] by (simp add: one_cell_board_def nth_append)
  ultimately show ?thesis
    using wf_board_one_cell valid_T_one lock len by simp
qed

section \<open>Properties of the piece queue\<close>

lemma shuffle_from_step:
  "shuffle_from (Suc i) xs r =
     shuffle_from i (xs[Suc i := xs ! (r 0 mod (i + 2)), r 0 mod (i + 2) := xs ! Suc i])
       (advance 1 r)"
  by (simp add: randbelow_def advance_def)

lemma advance_advance: "advance m (advance n r) = advance (n + m) r"
  by (simp add: advance_def ac_simps)

lemma advance_0: "advance 0 r = r"
  by (simp add: advance_def)

lemma shuffle_from_6:
  "shuffle_from 6 xs r =
     (let x5 = xs[6 := xs ! (r 0 mod 7), r 0 mod 7 := xs ! 6];
          x4 = x5[5 := x5 ! (r 1 mod 6), r 1 mod 6 := x5 ! 5];
          x3 = x4[4 := x4 ! (r 2 mod 5), r 2 mod 5 := x4 ! 4];
          x2 = x3[3 := x3 ! (r 3 mod 4), r 3 mod 4 := x3 ! 3];
          x1 = x2[2 := x2 ! (r 4 mod 3), r 4 mod 3 := x2 ! 2];
          x0 = x1[1 := x1 ! (r 5 mod 2), r 5 mod 2 := x1 ! 1]
      in (x0, advance 6 r))"
proof -
  have s6: "shuffle_from 6 ys g =
      shuffle_from 5 (ys[6 := ys ! (g 0 mod 7), g 0 mod 7 := ys ! 6]) (advance 1 g)" for ys :: "'a list" and g
    using shuffle_from_step [of 5 ys g] by simp
  have s5: "shuffle_from 5 ys g =
      shuffle_from 4 (ys[5 := ys ! (g 0 mod 6), g 0 mod 6 := ys ! 5]) (advance 1 g)" for ys :: "'a list" and g
    using shuffle_from_step [of 4 ys g] by simp
  have s4: "shuffle_from 4 ys g =
      shuffle_from 3 (ys[4 := ys ! (g 0 mod 5), g 0 mod 5 := ys ! 4]) (advance 1 g)" for ys :: "'a list" and g
    using shuffle_from_step [of 3 ys g] by simp
  have s3: "shuffle_from 3 ys g =
      shuffle_from 2 (ys[3 := ys ! (g 0 mod 4), g 0 mod 4 := ys ! 3]) (advance 1 g)" for ys :: "'a list" and g
    using shuffle_from_step [of 2 ys g] by simp
  have s2: "shuffle_from 2 ys g =
      shuffle_from 1 (ys[2 := ys ! (g 0 mod 3), g 0 mod 3 := ys ! 2]) (advance 1 g)" for ys :: "'a list" and g
  proof -
    have e: "Suc 1 = 2" "(1::nat) + 2 = 3" by simp_all
    show ?thesis using shuffle_from_step [of 1 ys g] unfolding e .
  qed
  have s1: "shuffle_from 1 ys g =
      (ys[1 := ys ! (g 0 mod 2), g 0 mod 2 := ys ! 1], advance 1 g)" for ys :: "'a list" and g
    by (simp add: randbelow_def advance_def numeral_2_eq_2)
  have z: "advance 1 r 0 = r 1" "advance 2 r 0 = r 2" "advance 3 r 0 = r 3"
    "advance 4 r 0 = r 4" "advance 5 r 0 = r 5"
    by (simp_all only: advance_def add_0_left)
  have sums: "(1::nat) + 1 = 2" "(2::nat) + 1 = 3" "(3::nat) + 1 = 4" "(4::nat) + 1 = 5"
    "(5::nat) + 1 = 6"
    by simp_all
  have adv: "advance 1 (advance 1 r) = advance 2 r" "advance 1 (advance 2 r) = advance 3 r"
    "advance 1 (advance 3 r) = advance 4 r" "advance 1 (advance 4 r) = advance 5 r"
    "advance 1 (advance 5 r) = advance 6 r"
    by (simp_all only: advance_advance sums)
  define x5 where "x5 = xs[6 := xs ! (r 0 mod 7), r 0 mod 7 := xs ! 6]"
  define x4 where "x4 = x5[5 := x5 ! (r 1 mod 6), r 1 mod 6 := x5 ! 5]"
  define x3 where "x3 = x4[4 := x4 ! (r 2 mod 5), r 2 mod 5 := x4 ! 4]"
  define x2 where "x2 = x3[3 := x3 ! (r 3 mod 4), r 3 mod 4 := x3 ! 3]"
  define x1 where "x1 = x2[2 := x2 ! (r 4 mod 3), r 4 mod 3 := x2 ! 2]"
  define x0 where "x0 = x1[1 := x1 ! (r 5 mod 2), r 5 mod 2 := x1 ! 1]"
  have "shuffle_from 6 xs r = shuffle_from 5 x5 (advance 1 r)"
    by (simp only: s6 x5_def)
  also have "\<dots> = shuffle_from 4 x4 (advance 2 r)"
    by (simp only: s5 z adv x4_def)
  also have "\<dots> = shuffle_from 3 x3 (advance 3 r)"
    by (simp only: s4 z adv x3_def)
  also have "\<dots> = shuffle_from 2 x2 (advance 4 r)"
    by (simp only: s3 z adv x2_def)
  also have "\<dots> = shuffle_from 1 x1 (advance 5 r)"
    by (simp only: s2 z adv x1_def)
  also have "\<dots> = (x0, advance 6 r)"
    by (simp only: s1 z adv x0_def)
  finally show ?thesis
    by (simp only: Let_def x0_def x1_def x2_def x3_def x4_def x5_def)
qed

lemma shuffle_from_mset:
  "i < length xs \<Longrightarrow> mset (fst (shuffle_from i xs r)) = mset xs"
proof (induction i arbitrary: xs r)
  case 0
  show ?case by simp
next
  case (Suc i)
  let ?j = "r 0 mod (Suc i + 1)"
  let ?xs = "xs[Suc i := xs ! ?j, ?j := xs ! Suc i]"
  have j: "?j < length xs"
    using Suc.prems by (intro less_le_trans [OF mod_less_divisor]) simp_all
  have sw: "mset ?xs = mset xs"
    using j Suc.prems by (rule mset_swap)
  have "i < length ?xs" using Suc.prems by simp
  from Suc.IH [OF this] sw show ?case
    by (simp add: randbelow_def)
qed

lemma shuffle_mset: "mset (fst (shuffle xs r)) = mset xs"
proof (cases xs)
  case Nil
  then show ?thesis by (simp add: shuffle_def)
next
  case (Cons x ys)
  then have "length xs - 1 < length xs" by simp
  then show ?thesis
    unfolding shuffle_def by (rule shuffle_from_mset)
qed

lemma SHAPE_ORDER_eq: "SHAPE_ORDER = [''I'', ''J'', ''L'', ''O'', ''S'', ''T'', ''Z'']"
  by (simp add: SHAPE_ORDER_def SHAPES_items_def)

lemma next_bag_mset: "mset (fst (next_bag r)) = mset SHAPE_ORDER"
  by (simp add: next_bag_def shuffle_mset)

lemma next_bag_length: "length (fst (next_bag r)) = 7"
  using mset_eq_length [OF next_bag_mset [of r]] by (simp add: SHAPE_ORDER_eq)

lemma spawn_piece_Cons: "spawn_piece (k # q) r = Inr (k, q, r)"
  by (simp add: spawn_piece_def)

lemma spawn_piece_Nil:
  "spawn_piece [] r = Inr (hd (fst (next_bag r)), tl (fst (next_bag r)), snd (next_bag r))"
proof -
  obtain bag r' where nb: "next_bag r = (bag, r')" by (cases "next_bag r")
  with next_bag_length [of r] have "length bag = 7" by simp
  then obtain k rest where "bag = k # rest" by (cases bag) simp_all
  with nb show ?thesis by (simp add: spawn_piece_def)
qed

lemma draws_queue:
  "n \<le> length q \<Longrightarrow> draws n q r = Inr (take n q, drop n q, r)"
proof (induction n arbitrary: q)
  case 0
  show ?case by simp
next
  case (Suc n)
  then obtain k rest where q: "q = k # rest" by (cases q) simp_all
  with Suc.prems have "n \<le> length rest" by simp
  from Suc.IH [OF this] show ?case
    by (simp add: q spawn_piece_Cons)
qed

lemma draws_bag:
  "draws 7 [] r = Inr (fst (next_bag r), [], snd (next_bag r))"
proof -
  obtain bag r' where nb: "next_bag r = (bag, r')" by (cases "next_bag r")
  have len: "length bag = 7" using next_bag_length [of r] nb by simp
  then obtain k rest where bag: "bag = k # rest" by (cases bag) simp_all
  have lr: "6 \<le> length rest" using len bag by simp
  have lr2: "length rest = 6" using len bag by simp
  have sp: "spawn_piece [] r = Inr (k, rest, r')"
    using spawn_piece_Nil [of r] by (simp add: nb bag)
  have rest: "draws 6 rest r' = Inr (rest, [], r')"
    using draws_queue [OF lr, of r'] lr2 by simp
  have "draws (Suc 6) [] r = Inr (bag, [], r')"
    by (subst draws.simps(2)) (simp only: sp rest sum.case prod.case bag)
  then show ?thesis by (simp add: nb)
qed

lemma draws_add:
  "draws (m + n) q r =
     (case draws m q r of
        Inl e \<Rightarrow> Inl e
      | Inr (ks, q', r') \<Rightarrow>
          (case draws n q' r' of
             Inl e \<Rightarrow> Inl e
           | Inr (ks', q'', r'') \<Rightarrow> Inr (ks @ ks', q'', r'')))"
  by (induction m arbitrary: q r) (auto split: sum.splits)

lemma spawn_piece_total: "\<exists>k q' r'. spawn_piece q r = Inr (k, q', r')"
  by (cases q) (simp_all add: spawn_piece_Nil spawn_piece_Cons)

lemma draws_total: "\<exists>ks q' r'. draws n q r = Inr (ks, q', r') \<and> length ks = n"
proof (induction n arbitrary: q r)
  case 0
  show ?case by simp
next
  case (Suc n)
  from spawn_piece_total obtain k q1 r1 where sp: "spawn_piece q r = Inr (k, q1, r1)"
    by blast
  from Suc.IH [of q1 r1] obtain ks q' r' where "draws n q1 r1 = Inr (ks, q', r')" "length ks = n"
    by blast
  with sp show ?case by simp
qed

lemma next_bag_shuffle: "next_bag r = shuffle SHAPE_ORDER r"
  by (simp add: next_bag_def)

lemma shuffle_SHAPE_ORDER: "shuffle SHAPE_ORDER r = shuffle_from 6 SHAPE_ORDER r"
proof -
  have "length SHAPE_ORDER - 1 = 6" by (simp add: SHAPE_ORDER_eq)
  then show ?thesis by (simp only: shuffle_def)
qed

lemma next_bag_rng: "snd (next_bag r) = advance 6 r"
  by (simp only: next_bag_shuffle shuffle_SHAPE_ORDER shuffle_from_6 Let_def snd_conv)

lemma shuffle_from_keeps:
  "i < n \<Longrightarrow> n < length xs \<Longrightarrow> fst (shuffle_from i xs r) ! n = xs ! n"
proof (induction i arbitrary: xs r)
  case 0
  show ?case by simp
next
  case (Suc i)
  let ?j = "r 0 mod (i + 2)"
  let ?xs = "xs[Suc i := xs ! ?j, ?j := xs ! Suc i]"
  have jb: "?j < i + 2" by (rule mod_less_divisor) simp
  have ne: "?j \<noteq> n" "Suc i \<noteq> n"
    using jb Suc.prems by arith+
  have "fst (shuffle_from (Suc i) xs r) ! n = fst (shuffle_from i ?xs (advance 1 r)) ! n"
    by (simp only: shuffle_from_step)
  also have "\<dots> = ?xs ! n"
    using Suc.prems by (intro Suc.IH) simp_all
  also have "\<dots> = xs ! n"
    using ne by simp
  finally show ?case .
qed

lemma next_bag_last: "fst (next_bag r) ! 6 = SHAPE_ORDER ! (r 0 mod 7)"
proof -
  let ?j = "r 0 mod 7"
  let ?x5 = "SHAPE_ORDER[6 := SHAPE_ORDER ! ?j, ?j := SHAPE_ORDER ! 6]"
  have len: "length SHAPE_ORDER = 7" by (simp add: SHAPE_ORDER_eq)
  have "shuffle_from 6 SHAPE_ORDER r = shuffle_from 5 ?x5 (advance 1 r)"
    using shuffle_from_step [of 5 SHAPE_ORDER r] by simp
  then have "fst (next_bag r) ! 6 = fst (shuffle_from 5 ?x5 (advance 1 r)) ! 6"
    by (simp only: next_bag_shuffle shuffle_SHAPE_ORDER)
  also have "\<dots> = ?x5 ! 6"
    by (rule shuffle_from_keeps) (simp_all add: len)
  also have "\<dots> = SHAPE_ORDER ! ?j"
    by (cases "?j = 6") (simp_all add: len)
  finally show ?thesis .
qed

lemma draws_bags:
  "\<exists>ks. draws (7 * n) [] r = Inr (ks, [], advance (6 * n) r) \<and> length ks = 7 * n
     \<and> (\<forall>i<n. take 7 (drop (7 * i) ks) = fst (next_bag (advance (6 * i) r)))
     \<and> (\<forall>k. count_list ks k = n * count_list SHAPE_ORDER k)"
proof (induction n arbitrary: r)
  case 0
  show ?case by (simp add: advance_0)
next
  case (Suc n)
  let ?bag = "fst (next_bag r)"
  from Suc.IH [of "advance 6 r"] obtain ks where
    d: "draws (7 * n) [] (advance 6 r) = Inr (ks, [], advance (6 * n) (advance 6 r))"
    and len: "length ks = 7 * n"
    and win: "\<forall>i<n. take 7 (drop (7 * i) ks)
                = fst (next_bag (advance (6 * i) (advance 6 r)))"
    and cnt: "\<forall>k. count_list ks k = n * count_list SHAPE_ORDER k"
    by blast
  have bl: "length ?bag = 7" by (rule next_bag_length)
  have adv: "advance (6 * m) (advance 6 r) = advance (6 * Suc m) r" for m
    by (simp add: advance_advance)
  have "7 * Suc n = 7 + 7 * n" by simp
  then have all: "draws (7 * Suc n) [] r = Inr (?bag @ ks, [], advance (6 * Suc n) r)"
    by (simp only: draws_add draws_bag next_bag_rng) (simp add: d adv)
  have w: "take 7 (drop (7 * i) (?bag @ ks)) = fst (next_bag (advance (6 * i) r))"
    if "i < Suc n" for i
  proof (cases i)
    case 0
    then show ?thesis by (simp add: bl advance_0)
  next
    case (Suc i')
    with that have "i' < n" by simp
    with win have "take 7 (drop (7 * i') ks) = fst (next_bag (advance (6 * Suc i') r))"
      by (simp only: adv)
    then show ?thesis by (simp add: Suc bl)
  qed
  have bc: "count_list ?bag k = count_list SHAPE_ORDER k" for k
    using next_bag_mset [of r] by (metis count_mset)
  have c: "count_list (?bag @ ks) k = Suc n * count_list SHAPE_ORDER k" for k
    by (simp add: bc cnt)
  from all w c len bl show ?case by auto
qed

lemma draws_windows:
  "\<exists>ks q' r'. draws N [] r = Inr (ks, q', r') \<and> length ks = N
     \<and> (\<forall>i. 7 * i + 7 \<le> N \<longrightarrow>
           mset (take 7 (drop (7 * i) ks)) = mset SHAPE_ORDER
           \<and> take 7 (drop (7 * i) ks) = fst (next_bag (advance (6 * i) r)))"
proof -
  let ?n = "N div 7"
  from draws_bags [of ?n r] obtain ks1 where
    d1: "draws (7 * ?n) [] r = Inr (ks1, [], advance (6 * ?n) r)"
    and l1: "length ks1 = 7 * ?n"
    and win: "\<forall>i < ?n. take 7 (drop (7 * i) ks1) = fst (next_bag (advance (6 * i) r))"
    by blast
  from draws_total [of "N mod 7" "[]" "advance (6 * ?n) r"] obtain ks2 q2 r2 where
    d2: "draws (N mod 7) [] (advance (6 * ?n) r) = Inr (ks2, q2, r2)"
    and l2: "length ks2 = N mod 7"
    by blast
  have "draws N [] r = draws (7 * ?n + N mod 7) [] r" by simp
  also have "\<dots> = Inr (ks1 @ ks2, q2, r2)"
    by (simp only: draws_add d1) (simp add: d2)
  finally have all: "draws N [] r = Inr (ks1 @ ks2, q2, r2)" .
  have w: "mset (take 7 (drop (7 * i) (ks1 @ ks2))) = mset SHAPE_ORDER
      \<and> take 7 (drop (7 * i) (ks1 @ ks2)) = fst (next_bag (advance (6 * i) r))"
    if "7 * i + 7 \<le> N" for i
  proof -
    from that have i: "i < ?n" by simp
    then have "7 * i + 7 \<le> length ks1" using l1 by simp
    then have "take 7 (drop (7 * i) (ks1 @ ks2)) = take 7 (drop (7 * i) ks1)"
      by simp
    with win i have "take 7 (drop (7 * i) (ks1 @ ks2)) = fst (next_bag (advance (6 * i) r))"
      by simp
    then show ?thesis by (simp only: next_bag_mset simp_thms)
  qed
  have "length (ks1 @ ks2) = N" using l1 l2 by simp
  with all w show ?thesis by blast
qed

lemma SHAPE_ORDER_count:
  "k \<in> set SHAPE_ORDER \<Longrightarrow> count_list SHAPE_ORDER k = 1"
  by (auto simp: SHAPE_ORDER_eq)

lemma draws_7000:
  "\<exists>ks q' r'. draws 7000 [] r = Inr (ks, q', r')
     \<and> (\<forall>k \<in> set SHAPE_ORDER. count_list ks k = 1000)"
proof -
  from draws_bags [of 1000 r] obtain ks where
    d: "draws (7 * 1000) [] r = Inr (ks, [], advance (6 * 1000) r)"
    and cnt: "\<forall>k. count_list ks k = 1000 * count_list SHAPE_ORDER k"
    by blast
  have "(7::nat) * 1000 = 7000" by simp
  with d have "draws 7000 [] r = Inr (ks, [], advance (6 * 1000) r)" by (simp only:)
  moreover have "\<forall>k \<in> set SHAPE_ORDER. count_list ks k = 1000"
    using cnt by (simp add: SHAPE_ORDER_count)
  ultimately show ?thesis by blast
qed

text \<open>
  C7. \<open>spawn_piece\<close> on a non-empty queue returns its front and leaves the rest; on the
  empty queue it first appends the bag that \<open>next_bag\<close> makes and returns the front of that.
  The bag is the shuffle of the seven kinds by the generator of the session: the six
  exchanges written out below, each driven by the next raw number, so that the last kind of
  the bag is the one the first raw number picks, and the generator is left six numbers
  further. The bag is a permutation of the seven kinds. So, drawing from the empty queue
  with any generator, every window of 7 consecutive draws that starts at a multiple of 7 is
  the bag shuffled by the generator as the windows before left it, hence a permutation of
  the seven kinds, and in 7000 draws each kind comes exactly 1000 times.
\<close>

theorem spawn_piece_bags:
  "spawn_piece (k # q) r = Inr (k, q, r)
   \<and> (\<exists>bag. next_bag r = (bag, advance 6 r) \<and> mset bag = mset SHAPE_ORDER
         \<and> bag ! 6 = SHAPE_ORDER ! (r 0 mod 7)
         \<and> spawn_piece [] r = Inr (hd bag, tl bag, advance 6 r))
   \<and> next_bag r = shuffle SHAPE_ORDER r
   \<and> shuffle SHAPE_ORDER r =
       (let x5 = SHAPE_ORDER[6 := SHAPE_ORDER ! (r 0 mod 7), r 0 mod 7 := SHAPE_ORDER ! 6];
            x4 = x5[5 := x5 ! (r 1 mod 6), r 1 mod 6 := x5 ! 5];
            x3 = x4[4 := x4 ! (r 2 mod 5), r 2 mod 5 := x4 ! 4];
            x2 = x3[3 := x3 ! (r 3 mod 4), r 3 mod 4 := x3 ! 3];
            x1 = x2[2 := x2 ! (r 4 mod 3), r 4 mod 3 := x2 ! 2];
            x0 = x1[1 := x1 ! (r 5 mod 2), r 5 mod 2 := x1 ! 1]
        in (x0, advance 6 r))
   \<and> distinct SHAPE_ORDER \<and> length SHAPE_ORDER = 7
   \<and> (\<exists>ks q' r'. draws N [] r = Inr (ks, q', r') \<and> length ks = N
         \<and> (\<forall>i. 7 * i + 7 \<le> N \<longrightarrow>
               mset (take 7 (drop (7 * i) ks)) = mset SHAPE_ORDER
               \<and> take 7 (drop (7 * i) ks) = fst (next_bag (advance (6 * i) r))))
   \<and> (\<exists>ks q' r'. draws 7000 [] r = Inr (ks, q', r')
         \<and> (\<forall>k \<in> set SHAPE_ORDER. count_list ks k = 1000))"
proof -
  have nb: "next_bag r = (fst (next_bag r), advance 6 r)"
    using next_bag_rng [of r] by (cases "next_bag r") simp
  have bag: "\<exists>bag. next_bag r = (bag, advance 6 r) \<and> mset bag = mset SHAPE_ORDER
         \<and> bag ! 6 = SHAPE_ORDER ! (r 0 mod 7)
         \<and> spawn_piece [] r = Inr (hd bag, tl bag, advance 6 r)"
    using nb next_bag_mset [of r] next_bag_last [of r] spawn_piece_Nil [of r]
      next_bag_rng [of r]
    by auto
  have ex: "shuffle SHAPE_ORDER r =
       (let x5 = SHAPE_ORDER[6 := SHAPE_ORDER ! (r 0 mod 7), r 0 mod 7 := SHAPE_ORDER ! 6];
            x4 = x5[5 := x5 ! (r 1 mod 6), r 1 mod 6 := x5 ! 5];
            x3 = x4[4 := x4 ! (r 2 mod 5), r 2 mod 5 := x4 ! 4];
            x2 = x3[3 := x3 ! (r 3 mod 4), r 3 mod 4 := x3 ! 3];
            x1 = x2[2 := x2 ! (r 4 mod 3), r 4 mod 3 := x2 ! 2];
            x0 = x1[1 := x1 ! (r 5 mod 2), r 5 mod 2 := x1 ! 1]
        in (x0, advance 6 r))"
    by (simp only: shuffle_SHAPE_ORDER shuffle_from_6)
  have so: "distinct SHAPE_ORDER \<and> length SHAPE_ORDER = 7"
    by (simp add: SHAPE_ORDER_eq)
  from bag ex so show ?thesis
    using spawn_piece_Cons [of k q r] next_bag_shuffle [of r] draws_windows [of N r]
      draws_7000 [of r]
    by blast
qed

lemma next_bag_demo:
  "fst (next_bag (\<lambda>n. 3 * n + 1)) = [''O'', ''I'', ''Z'', ''T'', ''L'', ''S'', ''J'']"
  by code_simp

lemma next_bag_demo_second:
  "fst (next_bag (advance 6 (\<lambda>n. 3 * n + 1)))
     = [''L'', ''O'', ''J'', ''Z'', ''I'', ''S'', ''T'']"
  by code_simp

lemma next_bag_demo_other:
  "fst (next_bag (\<lambda>n. n)) = [''Z'', ''S'', ''T'', ''O'', ''L'', ''J'', ''I'']"
  by code_simp

theorem spawn_piece_bags_witness:
  "spawn_piece [''T'', ''O''] (\<lambda>n. 3 * n + 1) = Inr (''T'', [''O''], \<lambda>n. 3 * n + 1)
   \<and> spawn_piece [] (\<lambda>n. 3 * n + 1)
       = Inr (''O'', [''I'', ''Z'', ''T'', ''L'', ''S'', ''J''], advance 6 (\<lambda>n. 3 * n + 1))
   \<and> spawn_piece [] (\<lambda>n. n)
       = Inr (''Z'', [''S'', ''T'', ''O'', ''L'', ''J'', ''I''], advance 6 (\<lambda>n. n))
   \<and> (\<exists>ks q' r'. draws 14 [] (\<lambda>n. 3 * n + 1) = Inr (ks, q', r') \<and> length ks = 14
         \<and> take 7 ks = [''O'', ''I'', ''Z'', ''T'', ''L'', ''S'', ''J'']
         \<and> take 7 (drop 7 ks) = [''L'', ''O'', ''J'', ''Z'', ''I'', ''S'', ''T''])"
proof -
  let ?r = "\<lambda>n::nat. 3 * n + 1 :: nat"
  let ?id = "\<lambda>n::nat. n"
  note inst = spawn_piece_bags [of "''T''" "[''O'']" ?r 14]
  note inst2 = spawn_piece_bags [of "''T''" "[''O'']" ?id 14]
  from inst have a: "spawn_piece [''T'', ''O''] ?r = Inr (''T'', [''O''], ?r)"
    by blast
  from inst obtain bag where nb: "next_bag ?r = (bag, advance 6 ?r)"
    and sp: "spawn_piece [] ?r = Inr (hd bag, tl bag, advance 6 ?r)"
    by blast
  from nb next_bag_demo have "bag = [''O'', ''I'', ''Z'', ''T'', ''L'', ''S'', ''J'']"
    by simp
  with sp have b: "spawn_piece [] ?r
      = Inr (''O'', [''I'', ''Z'', ''T'', ''L'', ''S'', ''J''], advance 6 ?r)"
    by simp
  from inst2 obtain bag2 where nb2: "next_bag ?id = (bag2, advance 6 ?id)"
    and sp2: "spawn_piece [] ?id = Inr (hd bag2, tl bag2, advance 6 ?id)"
    by blast
  from nb2 next_bag_demo_other have "bag2 = [''Z'', ''S'', ''T'', ''O'', ''L'', ''J'', ''I'']"
    by simp
  with sp2 have c: "spawn_piece [] ?id
      = Inr (''Z'', [''S'', ''T'', ''O'', ''L'', ''J'', ''I''], advance 6 ?id)"
    by simp
  from inst obtain ks q' r'' where d: "draws 14 [] ?r = Inr (ks, q', r'')"
    and l: "length ks = 14"
    and w: "\<forall>i. 7 * i + 7 \<le> (14::nat) \<longrightarrow>
              mset (take 7 (drop (7 * i) ks)) = mset SHAPE_ORDER
              \<and> take 7 (drop (7 * i) ks) = fst (next_bag (advance (6 * i) ?r))"
    by blast
  have "take 7 (drop (7 * 0) ks) = fst (next_bag (advance (6 * 0) ?r))"
    using w [rule_format, of 0] by simp
  then have w0: "take 7 ks = [''O'', ''I'', ''Z'', ''T'', ''L'', ''S'', ''J'']"
    by (simp only: mult_0_right drop_0 advance_0 next_bag_demo)
  have "take 7 (drop (7 * 1) ks) = fst (next_bag (advance (6 * 1) ?r))"
    using w [rule_format, of 1] by simp
  then have w1: "take 7 (drop 7 ks) = [''L'', ''O'', ''J'', ''Z'', ''I'', ''S'', ''T'']"
    by (simp only: next_bag_demo_second mult_1_right)
  from a b c d l w0 w1 show ?thesis by blast
qed

section \<open>Properties of hard drop\<close>

lemma cells_moved:
  "cells (moved p dx dy) =
     (case cells p of Inl e \<Rightarrow> Inl e
      | Inr cs \<Rightarrow> Inr (map (\<lambda>(x, y). (x + dx, y + dy)) cs))"
  by (cases "position p")
    (auto simp: cells_def moved_def split: option.splits sum.splits)

lemma is_valid_position_total:
  assumes "wf_board b" and "cells p = Inr cs"
  shows "\<exists>v. is_valid_position b p = Inr v"
  using assms by (simp add: is_valid_position_def valid_cells_iff)

lemma moved_0: "moved p 0 0 = p"
  by (cases "position p") (simp add: moved_def)

lemma moved_moved: "moved (moved p 0 a) 0 c = moved p 0 (a + c)"
  by (cases "position p") (simp add: moved_def add.assoc)

lemma hard_drop_steps:
  assumes "wf_board b" and "cells p = Inr cs"
  shows "\<exists>k. hard_drop b p = Inr (moved p 0 (int k))
           \<and> (\<forall>i. 1 \<le> i \<and> i \<le> int k \<longrightarrow> is_valid_position b (moved p 0 i) = Inr True)
           \<and> is_valid_position b (moved p 0 (int k + 1)) = Inr False"
  using assms
proof (induction b p arbitrary: cs rule: hard_drop.induct)
  case (1 b p)
  have cm: "cells (moved p 0 1) = Inr (map (\<lambda>(x, y). (x + 0, y + 1)) cs)"
    by (simp add: cells_moved "1.prems"(2))
  from is_valid_position_total [OF "1.prems"(1) cm]
  obtain v where v: "is_valid_position b (moved p 0 1) = Inr v" by blast
  show ?case
  proof (cases v)
    case False
    with v have "hard_drop b p = Inr p"
      by (subst hard_drop.simps) simp
    with v False have "hard_drop b p = Inr (moved p 0 (int 0))
        \<and> (\<forall>i. 1 \<le> i \<and> i \<le> int 0 \<longrightarrow> is_valid_position b (moved p 0 i) = Inr True)
        \<and> is_valid_position b (moved p 0 (int 0 + 1)) = Inr False"
      by (auto simp: moved_0)
    then show ?thesis by blast
  next
    case True
    with v have step: "hard_drop b p = hard_drop b (moved p 0 1)"
      by (subst hard_drop.simps) simp
    from True have nn: "\<not> \<not> v" by simp
    from "1.IH" [OF v nn "1.prems"(1) cm] obtain k where
      hd: "hard_drop b (moved p 0 1) = Inr (moved (moved p 0 1) 0 (int k))"
      and ok: "\<forall>i. 1 \<le> i \<and> i \<le> int k \<longrightarrow>
                 is_valid_position b (moved (moved p 0 1) 0 i) = Inr True"
      and stop: "is_valid_position b (moved (moved p 0 1) 0 (int k + 1)) = Inr False"
      by blast
    have a: "hard_drop b p = Inr (moved p 0 (int (Suc k)))"
      using step hd by (simp add: moved_moved add.commute)
    have c: "is_valid_position b (moved p 0 (int (Suc k) + 1)) = Inr False"
      using stop by (simp add: moved_moved add.commute add.left_commute)
    have "is_valid_position b (moved p 0 i) = Inr True" if "1 \<le> i \<and> i \<le> int (Suc k)" for i
    proof (cases "i = 1")
      case True
      with v \<open>v\<close> show ?thesis by simp
    next
      case False
      with that have "1 \<le> i - 1 \<and> i - 1 \<le> int k" by simp
      with ok have "is_valid_position b (moved (moved p 0 1) 0 (i - 1)) = Inr True"
        by blast
      then show ?thesis by (simp add: moved_moved)
    qed
    with a c show ?thesis by blast
  qed
qed

text \<open>
  C8. \<open>hard_drop\<close> is a total function: its loop ends because a piece that is valid one
  row lower has its anchor above row 19. On a board of the data model and for a piece whose
  cells can be computed it returns the piece moved down by some \<open>k \<ge> 0\<close> rows, where the
  positions 1 to \<open>k\<close> rows down are all valid and the position \<open>k + 1\<close> rows down is not, so
  that \<open>k\<close> is the greatest number with all of 1 to \<open>k\<close> valid (\<open>k = 0\<close> returns the piece
  itself); kind, rotation and x-coordinate are those of the piece.
\<close>

theorem hard_drop_spec:
  assumes "wf_board b" and "cells p = Inr cs"
  shows "\<exists>k. hard_drop b p = Inr (moved p 0 (int k))
           \<and> (\<forall>i. 1 \<le> i \<and> i \<le> int k \<longrightarrow> is_valid_position b (moved p 0 i) = Inr True)
           \<and> is_valid_position b (moved p 0 (int k + 1)) = Inr False
           \<and> (\<forall>j. (\<forall>i. 1 \<le> i \<and> i \<le> int j \<longrightarrow> is_valid_position b (moved p 0 i) = Inr True)
                 \<longrightarrow> j \<le> k)
           \<and> name (moved p 0 (int k)) = name p
           \<and> rotation (moved p 0 (int k)) = rotation p
           \<and> position (moved p 0 (int k)) = (fst (position p), snd (position p) + int k)"
proof -
  from hard_drop_steps [OF assms] obtain k where
    hd: "hard_drop b p = Inr (moved p 0 (int k))"
    and ok: "\<forall>i. 1 \<le> i \<and> i \<le> int k \<longrightarrow> is_valid_position b (moved p 0 i) = Inr True"
    and stop: "is_valid_position b (moved p 0 (int k + 1)) = Inr False"
    by blast
  have great: "j \<le> k"
    if all: "\<forall>i. 1 \<le> i \<and> i \<le> int j \<longrightarrow> is_valid_position b (moved p 0 i) = Inr True" for j
  proof (rule ccontr)
    assume "\<not> j \<le> k"
    then have "1 \<le> int k + 1 \<and> int k + 1 \<le> int j" by simp
    with all have "is_valid_position b (moved p 0 (int k + 1)) = Inr True" by blast
    with stop show False by simp
  qed
  have fields: "name (moved p 0 (int k)) = name p \<and> rotation (moved p 0 (int k)) = rotation p
      \<and> position (moved p 0 (int k)) = (fst (position p), snd (position p) + int k)"
    by (cases "position p") (simp add: moved_def)
  from hd ok stop great fields show ?thesis by blast
qed

lemma hard_drop_demo:
  "hard_drop create_board (new_Tetromino ''T'') = Inr \<lparr>name = ''T'', rotation = 0, position = (3, 18)\<rparr>"
  by code_simp

theorem hard_drop_spec_witness:
  "wf_board create_board
   \<and> cells (new_Tetromino ''T'') = Inr [(4, 0), (3, 1), (4, 1), (5, 1)]
   \<and> (\<exists>k. hard_drop create_board (new_Tetromino ''T'')
              = Inr (moved (new_Tetromino ''T'') 0 (int k))
         \<and> is_valid_position create_board (moved (new_Tetromino ''T'') 0 (int k + 1))
              = Inr False)
   \<and> hard_drop create_board (new_Tetromino ''T'')
        = Inr \<lparr>name = ''T'', rotation = 0, position = (3, 18)\<rparr>"
  using hard_drop_spec [OF wf_board_create_board cells_new_T] wf_board_create_board
    cells_new_T hard_drop_demo
  by blast

section \<open>Properties of the rotate command\<close>

lemma rotated_cells:
  assumes "SHAPES (name p) = Some rots"
  shows "\<exists>rot cs. rotated p d = Inr rot \<and> cells rot = Inr cs \<and> name rot = name p
           \<and> position rot = position p
           \<and> rotation rot = (rotation p + d) mod int (length rots)"
proof -
  let ?rot = "\<lparr>name = name p, rotation = (rotation p + d) mod int (length rots),
               position = position p\<rparr>"
  have r: "rotated p d = Inr ?rot" using assms by (rule rotated_known)
  have "length rots \<noteq> 0" using SHAPES_cases(2) [OF assms] by auto
  then have "0 \<le> rotation ?rot \<and> rotation ?rot < int (length rots)" by simp
  then obtain cs where "cells ?rot = Inr cs"
    using cells_in_range [of ?rot rots] assms by auto
  with r show ?thesis by auto
qed

lemma rotate_command_spec:
  assumes wf: "wf_board b" and sh: "SHAPES (name p) = Some rots"
  shows "\<exists>rot. rotated p 1 = Inr rot \<and>
     rotate_command b p =
       Inr (if is_valid_position b rot = Inr True then rot
            else if is_valid_position b (moved rot (- 1) 0) = Inr True then moved rot (- 1) 0
            else if is_valid_position b (moved rot 1 0) = Inr True then moved rot 1 0
            else if is_valid_position b (moved rot (- 2) 0) = Inr True then moved rot (- 2) 0
            else if is_valid_position b (moved rot 2 0) = Inr True then moved rot 2 0
            else p)"
proof -
  from rotated_cells [OF sh, of 1] obtain rot cs where
    rot: "rotated p 1 = Inr rot" and cs: "cells rot = Inr cs"
    by blast
  have mv: "\<exists>v. is_valid_position b (moved rot dx 0) = Inr v" for dx
    by (rule is_valid_position_total [OF wf]) (simp add: cells_moved cs)
  from is_valid_position_total [OF wf cs] obtain v0 where
    v0: "is_valid_position b rot = Inr v0" by blast
  from mv [of "- 1"] obtain v1 where v1: "is_valid_position b (moved rot (- 1) 0) = Inr v1"
    by blast
  from mv [of 1] obtain v2 where v2: "is_valid_position b (moved rot 1 0) = Inr v2"
    by blast
  from mv [of "- 2"] obtain v3 where v3: "is_valid_position b (moved rot (- 2) 0) = Inr v3"
    by blast
  from mv [of 2] obtain v4 where v4: "is_valid_position b (moved rot 2 0) = Inr v4"
    by blast
  have "rotate_command b p =
      Inr (if v0 then rot else if v1 then moved rot (- 1) 0 else if v2 then moved rot 1 0
           else if v3 then moved rot (- 2) 0 else if v4 then moved rot 2 0 else p)"
    by (simp add: rotate_command_def rot v0 v1 v2 v3 v4)
  then show ?thesis
    using rot by (simp add: v0 v1 v2 v3 v4)
qed

text \<open>
  C5. On a board of the data model and for a current piece of a known kind, the rotate
  command (\<^verbatim>\<open>K_UP\<close>) replaces the current piece by the clockwise-rotated piece if that is
  valid, otherwise by the first valid one among the rotated piece shifted by -1, +1, -2, +2
  columns, in this order, and leaves it unchanged if none is valid; nothing else in the
  session changes. So when the rotated piece is invalid and its shift by -1 is valid, the
  new piece is the rotated piece moved by exactly (-1, 0).
\<close>

theorem rotate_spec:
  assumes "wf_board (s_board s)" and "SHAPES (name (s_current_piece s)) = Some rots"
  shows "\<exists>rot t. rotated (s_current_piece s) 1 = Inr rot
           \<and> handle_event s (KEYDOWN K_UP) = Inr (s\<lparr>s_current_piece := t\<rparr>, False)
           \<and> t = (if is_valid_position (s_board s) rot = Inr True then rot
                  else if is_valid_position (s_board s) (moved rot (- 1) 0) = Inr True
                    then moved rot (- 1) 0
                  else if is_valid_position (s_board s) (moved rot 1 0) = Inr True
                    then moved rot 1 0
                  else if is_valid_position (s_board s) (moved rot (- 2) 0) = Inr True
                    then moved rot (- 2) 0
                  else if is_valid_position (s_board s) (moved rot 2 0) = Inr True
                    then moved rot 2 0
                  else s_current_piece s)
           \<and> (is_valid_position (s_board s) rot = Inr False
                \<and> is_valid_position (s_board s) (moved rot (- 1) 0) = Inr True
              \<longrightarrow> t = moved rot (- 1) 0
                  \<and> position t = (fst (position rot) - 1, snd (position rot))
                  \<and> rotation t = rotation rot \<and> name t = name rot)"
proof -
  from rotate_command_spec [OF assms] obtain rot where
    rot: "rotated (s_current_piece s) 1 = Inr rot"
    and rc: "rotate_command (s_board s) (s_current_piece s) =
       Inr (if is_valid_position (s_board s) rot = Inr True then rot
            else if is_valid_position (s_board s) (moved rot (- 1) 0) = Inr True
              then moved rot (- 1) 0
            else if is_valid_position (s_board s) (moved rot 1 0) = Inr True
              then moved rot 1 0
            else if is_valid_position (s_board s) (moved rot (- 2) 0) = Inr True
              then moved rot (- 2) 0
            else if is_valid_position (s_board s) (moved rot 2 0) = Inr True
              then moved rot 2 0
            else s_current_piece s)"
    (is "_ = Inr ?t")
    by blast
  have ev: "handle_event s (KEYDOWN K_UP) = Inr (s\<lparr>s_current_piece := ?t\<rparr>, False)"
    by (simp only: handle_event.simps rc sum.case)
  have kick: "?t = moved rot (- 1) 0
      \<and> position ?t = (fst (position rot) - 1, snd (position rot))
      \<and> rotation ?t = rotation rot \<and> name ?t = name rot"
    if "is_valid_position (s_board s) rot = Inr False
        \<and> is_valid_position (s_board s) (moved rot (- 1) 0) = Inr True"
    using that by (cases "position rot") (simp add: moved_def)
  from rot ev kick show ?thesis by blast
qed

lemma SHAPES_I: "SHAPES ''I'' = Some
   [[(0, 1), (1, 1), (2, 1), (3, 1)], [(2, 0), (2, 1), (2, 2), (2, 3)]]"
  by (simp add: SHAPES_def SHAPES_items_def)

lemma demo_rotated:
  "rotated \<lparr>name = ''I'', rotation = 1, position = (7, 0)\<rparr> 1
     = Inr \<lparr>name = ''I'', rotation = 0, position = (7, 0)\<rparr>"
  by (simp add: rotated_def SHAPES_I)

lemma demo_rotated_invalid:
  "is_valid_position create_board \<lparr>name = ''I'', rotation = 0, position = (7, 0)\<rparr> = Inr False"
  by code_simp

lemma demo_kicked_valid:
  "is_valid_position create_board (moved \<lparr>name = ''I'', rotation = 0, position = (7, 0)\<rparr> (- 1) 0)
     = Inr True"
  by code_simp

theorem rotate_spec_witness:
  "wf_board (s_board (demo_session create_board \<lparr>name = ''I'', rotation = 1, position = (7, 0)\<rparr>))
   \<and> handle_event (demo_session create_board \<lparr>name = ''I'', rotation = 1, position = (7, 0)\<rparr>)
         (KEYDOWN K_UP)
       = Inr (demo_session create_board \<lparr>name = ''I'', rotation = 0, position = (6, 0)\<rparr>, False)"
proof -
  let ?p = "\<lparr>name = ''I'', rotation = 1, position = (7, 0)\<rparr>"
  let ?s = "demo_session create_board ?p"
  have wf: "wf_board (s_board ?s)"
    by (simp add: demo_session_def wf_board_create_board)
  have sh: "SHAPES (name (s_current_piece ?s)) = Some
     [[(0, 1), (1, 1), (2, 1), (3, 1)], [(2, 0), (2, 1), (2, 2), (2, 3)]]"
    by (simp add: demo_session_def SHAPES_I)
  from rotate_spec [OF wf sh] obtain rot t where
    rot: "rotated (s_current_piece ?s) 1 = Inr rot"
    and ev: "handle_event ?s (KEYDOWN K_UP) = Inr (?s\<lparr>s_current_piece := t\<rparr>, False)"
    and kick: "is_valid_position (s_board ?s) rot = Inr False
                \<and> is_valid_position (s_board ?s) (moved rot (- 1) 0) = Inr True
              \<longrightarrow> t = moved rot (- 1) 0"
    by blast
  from rot have r: "rot = \<lparr>name = ''I'', rotation = 0, position = (7, 0)\<rparr>"
    by (simp add: demo_session_def demo_rotated)
  have "t = moved rot (- 1) 0"
    using kick by (simp add: r demo_session_def demo_rotated_invalid demo_kicked_valid)
  then have "t = \<lparr>name = ''I'', rotation = 0, position = (6, 0)\<rparr>"
    by (simp add: r moved_def)
  with ev wf show ?thesis
    by (simp add: demo_session_def)
qed

section \<open>Properties of lock and advance\<close>

lemma lock_piece_valid:
  assumes "wf_board b" and "is_valid_position b p = Inr True"
  shows "\<exists>b'. lock_piece b p = Inr b' \<and> wf_board b'"
proof -
  from assms obtain cs where cs: "cells p = Inr cs" and free: "list_all (cell_free b) cs"
    by (rule valid_position_cells)
  from free have "\<forall>(x, y) \<in> set cs. 0 \<le> x \<and> x < 10 \<and> y < 20"
    by (auto simp: list_all_iff cell_free_def)
  from lock_cells_spec [OF assms(1) this, of "name p"] cs show ?thesis
    by (auto simp: lock_piece_def)
qed

lemma clear_lines_wf:
  assumes "wf_board b"
  shows "wf_board (fst (clear_lines b))"
proof -
  have len: "length b = 20" using assms by (rule wf_board_length)
  have "length (filter (\<lambda>row. None \<in> set row) b)
      + length (filter (\<lambda>row. \<not> None \<in> set row) b) = 20"
    using filter_split_length [of "\<lambda>row. None \<in> set row" b] len by simp
  moreover have "list_all (\<lambda>row. int (length row) = GRID_WIDTH) b"
    using assms by (simp add: wf_board_def)
  ultimately show ?thesis
    by (auto simp: clear_lines_eq [OF len] wf_board_def GRID_HEIGHT_def GRID_WIDTH_def
        list_all_iff)
qed

lemma new_Tetromino_eq: "new_Tetromino n = \<lparr>name = n, rotation = 0, position = (3, 0)\<rparr>"
  by (simp add: new_Tetromino_def GRID_WIDTH_def)

lemma settle_piece_steps:
  assumes wf: "wf_board b" and valid: "is_valid_position b cur = Inr True"
    and sh: "SHAPES nxt = Some rots"
  shows "\<exists>b1 b2 cleared nxt' q' r' over.
      lock_piece b cur = Inr b1
      \<and> clear_lines b1 = (b2, cleared)
      \<and> spawn_piece q r = Inr (nxt', q', r')
      \<and> is_valid_position b2 \<lparr>name = nxt, rotation = 0, position = (3, 0)\<rparr> = Inr (\<not> over)
      \<and> settle_piece b cur nxt q r score lines_cleared level =
          Inr ((b2, q', r'),
               (\<lparr>name = nxt, rotation = 0, position = (3, 0)\<rparr>, nxt',
                fst (update_level_and_score score lines_cleared cleared),
                fst (snd (update_level_and_score score lines_cleared cleared)),
                snd (snd (update_level_and_score score lines_cleared cleared)),
                calculate_drop_interval
                  (snd (snd (update_level_and_score score lines_cleared cleared))),
                over))"
proof -
  let ?new = "\<lparr>name = nxt, rotation = 0, position = (3, 0)\<rparr>"
  from lock_piece_valid [OF wf valid] obtain b1 where
    lock: "lock_piece b cur = Inr b1" and wf1: "wf_board b1" by blast
  obtain b2 cleared where cl: "clear_lines b1 = (b2, cleared)"
    by (cases "clear_lines b1")
  have wf2: "wf_board b2"
    using clear_lines_wf [OF wf1] cl by simp
  from spawn_piece_total [of q r] obtain nxt' q' r' where
    sp: "spawn_piece q r = Inr (nxt', q', r')" by blast
  have "length rots \<noteq> 0" using SHAPES_cases(2) [OF sh] by auto
  then obtain cs where "cells ?new = Inr cs"
    using cells_in_range [of ?new rots] sh by auto
  from is_valid_position_total [OF wf2 this] obtain v where
    v: "is_valid_position b2 ?new = Inr v" by blast
  have "settle_piece b cur nxt q r score lines_cleared level =
          Inr ((b2, q', r'),
               (?new, nxt',
                fst (update_level_and_score score lines_cleared cleared),
                fst (snd (update_level_and_score score lines_cleared cleared)),
                snd (snd (update_level_and_score score lines_cleared cleared)),
                calculate_drop_interval
                  (snd (snd (update_level_and_score score lines_cleared cleared))),
                \<not> v))"
    by (simp add: settle_piece_def lock cl sp v new_Tetromino_eq case_prod_beta)
  with lock cl sp v show ?thesis by force
qed

text \<open>
  C3. On a board of the data model, for a piece \<open>cur\<close> that is valid on it and a next kind
  that is one of the seven, \<open>settle_piece\<close> (1) locks \<open>cur\<close> into the board, (2) clears the
  full rows of the result and gets their number, (3) updates score, lines and level with
  \<open>update_level_and_score\<close> from that number and takes the drop interval of the new level,
  (4) makes the piece of the next kind with rotation 0 at \<open>(3, 0)\<close> the current piece,
  (5) draws the new next kind with \<open>spawn_piece\<close>, and (6) reports game over exactly when
  that new current piece is invalid on the cleared board. The event handler runs this
  transition with \<open>cur\<close> the current piece when a gravity tick cannot move it down, and
  with \<open>cur\<close> the hard-dropped piece on the hard-drop command; it stores the results in the
  session and stops the loop exactly on game over.
\<close>

theorem settle_piece_spec:
  assumes "wf_board (s_board s)" and "is_valid_position (s_board s) cur = Inr True"
    and "SHAPES (s_next_piece_name s) = Some rots"
  shows "\<exists>b1 b2 cleared score' lines' level' nxt' q' r' over s'.
      lock_piece (s_board s) cur = Inr b1
      \<and> clear_lines b1 = (b2, cleared)
      \<and> update_level_and_score (s_score s) (s_lines_cleared s) cleared = (score', lines', level')
      \<and> spawn_piece (s_queue s) (s_rng s) = Inr (nxt', q', r')
      \<and> is_valid_position b2 \<lparr>name = s_next_piece_name s, rotation = 0, position = (3, 0)\<rparr>
           = Inr (\<not> over)
      \<and> settle_piece (s_board s) cur (s_next_piece_name s) (s_queue s) (s_rng s)
             (s_score s) (s_lines_cleared s) (s_level s) =
           Inr ((b2, q', r'),
                (\<lparr>name = s_next_piece_name s, rotation = 0, position = (3, 0)\<rparr>, nxt',
                 score', lines', level', calculate_drop_interval level', over))
      \<and> s' = \<lparr>s_board = b2, s_queue = q', s_rng = r',
                s_current_piece = \<lparr>name = s_next_piece_name s, rotation = 0, position = (3, 0)\<rparr>,
                s_next_piece_name = nxt', s_score = score', s_lines_cleared = lines',
                s_level = level', s_drop_interval = calculate_drop_interval level',
                s_running = (s_running s \<and> \<not> over)\<rparr>
      \<and> (cur = s_current_piece s
            \<and> is_valid_position (s_board s) (moved (s_current_piece s) 0 1) = Inr False
          \<longrightarrow> handle_event s DROP_EVENT = Inr (s', over))
      \<and> (hard_drop (s_board s) (s_current_piece s) = Inr cur
          \<longrightarrow> handle_event s (KEYDOWN K_SPACE) = Inr (s', over))"
proof -
  let ?new = "\<lparr>name = s_next_piece_name s, rotation = 0, position = (3, 0)\<rparr>"
  from settle_piece_steps [OF assms, of "s_queue s" "s_rng s" "s_score s" "s_lines_cleared s"
      "s_level s"]
  obtain b1 b2 cleared nxt' q' r' over where
    lock: "lock_piece (s_board s) cur = Inr b1"
    and cl: "clear_lines b1 = (b2, cleared)"
    and sp: "spawn_piece (s_queue s) (s_rng s) = Inr (nxt', q', r')"
    and v: "is_valid_position b2 ?new = Inr (\<not> over)"
    and st: "settle_piece (s_board s) cur (s_next_piece_name s) (s_queue s) (s_rng s)
               (s_score s) (s_lines_cleared s) (s_level s) =
          Inr ((b2, q', r'),
               (?new, nxt',
                fst (update_level_and_score (s_score s) (s_lines_cleared s) cleared),
                fst (snd (update_level_and_score (s_score s) (s_lines_cleared s) cleared)),
                snd (snd (update_level_and_score (s_score s) (s_lines_cleared s) cleared)),
                calculate_drop_interval
                  (snd (snd (update_level_and_score (s_score s) (s_lines_cleared s) cleared))),
                over))"
    by blast
  obtain score' lines' level' where
    up: "update_level_and_score (s_score s) (s_lines_cleared s) cleared = (score', lines', level')"
    by (cases "update_level_and_score (s_score s) (s_lines_cleared s) cleared")
  define s' where "s' = \<lparr>s_board = b2, s_queue = q', s_rng = r', s_current_piece = ?new,
      s_next_piece_name = nxt', s_score = score', s_lines_cleared = lines',
      s_level = level', s_drop_interval = calculate_drop_interval level',
      s_running = (s_running s \<and> \<not> over)\<rparr>"
  have st': "settle_piece (s_board s) cur (s_next_piece_name s) (s_queue s) (s_rng s)
               (s_score s) (s_lines_cleared s) (s_level s) =
          Inr ((b2, q', r'),
               (?new, nxt', score', lines', level', calculate_drop_interval level', over))"
    using st by (simp add: up)
  have ss: "settle_session s cur = Inr (s', over)"
    by (simp add: settle_session_def st' s'_def)
  have drop: "handle_event s DROP_EVENT = Inr (s', over)"
    if "cur = s_current_piece s
        \<and> is_valid_position (s_board s) (moved (s_current_piece s) 0 1) = Inr False"
    using that ss by simp
  have space: "handle_event s (KEYDOWN K_SPACE) = Inr (s', over)"
    if "hard_drop (s_board s) (s_current_piece s) = Inr cur"
    using that ss by simp
  from lock cl up sp v st' drop space show ?thesis
    unfolding s'_def by blast
qed

lemma wf_board_gap: "wf_board gap_board"
  by (simp add: wf_board_def gap_board_def GRID_HEIGHT_def GRID_WIDTH_def list_all_iff)

lemma gap_hard_drop:
  "hard_drop gap_board \<lparr>name = ''T'', rotation = 0, position = (3, 0)\<rparr>
     = Inr \<lparr>name = ''T'', rotation = 0, position = (3, 18)\<rparr>"
  by code_simp

lemma gap_dropped_valid:
  "is_valid_position gap_board \<lparr>name = ''T'', rotation = 0, position = (3, 18)\<rparr> = Inr True"
  by code_simp

lemma gap_space:
  "(case handle_event (demo_session gap_board \<lparr>name = ''T'', rotation = 0, position = (3, 0)\<rparr>)
           (KEYDOWN K_SPACE) of
      Inl e \<Rightarrow> None
    | Inr (s', brk) \<Rightarrow>
        Some (s_score s', s_lines_cleared s', s_level s', s_drop_interval s',
              s_current_piece s', s_next_piece_name s', s_queue s', s_running s', brk,
              s_board s' ! 19))
   = Some (100, 1, 1, 700, \<lparr>name = ''T'', rotation = 0, position = (3, 0)\<rparr>, ''O'',
           [''I'', ''Z'', ''T'', ''L'', ''S'', ''J''], True, False,
           [None, None, None, None, Some ''T'', None, None, None, None, None])"
  by code_simp

theorem settle_piece_spec_witness:
  "wf_board (s_board (demo_session gap_board \<lparr>name = ''T'', rotation = 0, position = (3, 0)\<rparr>))
   \<and> is_valid_position gap_board \<lparr>name = ''T'', rotation = 0, position = (3, 18)\<rparr> = Inr True
   \<and> hard_drop gap_board \<lparr>name = ''T'', rotation = 0, position = (3, 0)\<rparr>
        = Inr \<lparr>name = ''T'', rotation = 0, position = (3, 18)\<rparr>
   \<and> (\<exists>s'. handle_event (demo_session gap_board \<lparr>name = ''T'', rotation = 0, position = (3, 0)\<rparr>)
               (KEYDOWN K_SPACE) = Inr (s', False)
         \<and> s_score s' = 100 \<and> s_lines_cleared s' = 1 \<and> s_level s' = 1
         \<and> s_drop_interval s' = calculate_drop_interval 1
         \<and> s_current_piece s' = \<lparr>name = ''T'', rotation = 0, position = (3, 0)\<rparr>
         \<and> s_next_piece_name s' = ''O'' \<and> s_running s')"
proof -
  let ?s = "demo_session gap_board \<lparr>name = ''T'', rotation = 0, position = (3, 0)\<rparr>"
  let ?cur = "\<lparr>name = ''T'', rotation = 0, position = (3, 18)\<rparr>"
  have wf: "wf_board (s_board ?s)"
    by (simp add: demo_session_def wf_board_gap)
  have valid: "is_valid_position (s_board ?s) ?cur = Inr True"
    by (simp add: demo_session_def gap_dropped_valid)
  have sh: "SHAPES (s_next_piece_name ?s) = Some
     [[(1, 0), (0, 1), (1, 1), (2, 1)], [(1, 0), (1, 1), (2, 1), (1, 2)],
      [(0, 1), (1, 1), (2, 1), (1, 2)], [(1, 0), (0, 1), (1, 1), (1, 2)]]"
    by (simp add: demo_session_def SHAPES_T)
  have hd: "hard_drop (s_board ?s) (s_current_piece ?s) = Inr ?cur"
    by (simp add: demo_session_def gap_hard_drop)
  from settle_piece_spec [OF wf valid sh] hd obtain s' over where
    ev: "handle_event ?s (KEYDOWN K_SPACE) = Inr (s', over)"
    by blast
  from gap_space ev have "s_score s' = 100 \<and> s_lines_cleared s' = 1 \<and> s_level s' = 1
      \<and> s_drop_interval s' = 700
      \<and> s_current_piece s' = \<lparr>name = ''T'', rotation = 0, position = (3, 0)\<rparr>
      \<and> s_next_piece_name s' = ''O'' \<and> s_running s' \<and> \<not> over"
    by simp
  with ev wf gap_dropped_valid gap_hard_drop show ?thesis
    by (auto simp: calculate_drop_interval_def)
qed

end
